theory Spec2Isabelle
  imports Main
begin

section \<open>Strings and thrown values\<close>

text \<open>
  A JavaScript string is modelled as the list of the bytes of its UTF-8 encoding. All
  characters the code compares against (quotes, the slash, the space, the bracket) are
  ASCII, so prefix tests and scans over bytes agree with the same operations on the
  string itself.
\<close>

type_synonym error = string

definition truthy :: "string \<Rightarrow> bool" where
  "truthy s = (s \<noteq> [])"

text \<open>\<^verbatim>\<open>a || b\<close> on strings, where an absent field is the empty string.\<close>

definition or_else :: "string \<Rightarrow> string \<Rightarrow> string" where
  "or_else a b = (if truthy a then a else b)"

definition startsWith :: "string \<Rightarrow> string \<Rightarrow> bool" where
  "startsWith s p = (take (length p) s = p)"

definition endsWith :: "string \<Rightarrow> string \<Rightarrow> bool" where
  "endsWith s p = (length p \<le> length s \<and> drop (length s - length p) s = p)"

text \<open>\<^verbatim>\<open>String(n)\<close> for a non-negative integer below \<open>10^21\<close>: its decimal digits.\<close>

fun show_nat :: "nat \<Rightarrow> string" where
  "show_nat n = (if n < 10 then [char_of (48 + n)] else show_nat (n div 10) @ [char_of (48 + n mod 10)])"

declare show_nat.simps [simp del]

text \<open>
  A value that has properties (an Error object, but also a string or a number that was
  thrown), with the properties the sandbox reads from it; an absent property is the
  empty string, which \<^verbatim>\<open>||\<close> treats the same way. \<^verbatim>\<open>error.code\<close> is a number (an
  exit status) or a string (\<^verbatim>\<open>'ENOENT'\<close>). \<open>as_string\<close> is \<^verbatim>\<open>String(error)\<close>.
\<close>

datatype js_code = Num int | Str string

record thrown =
  err_message :: string
  err_stdout :: string
  err_stderr :: string
  err_code :: "js_code option"
  as_string :: string

definition Error :: "string \<Rightarrow> thrown" where
  "Error msg =
     \<lparr>err_message = msg, err_stdout = [], err_stderr = [], err_code = None,
      as_string = (if msg = [] then ''Error'' else ''Error: '' @ msg)\<rparr>"

text \<open>
  What a promise rejects with, and what \<^verbatim>\<open>catch (error: any)\<close> receives, is any
  JavaScript value. A property can be read from every value but \<^verbatim>\<open>null\<close> and
  \<^verbatim>\<open>undefined\<close>: reading one from these two throws a TypeError, whose message names
  the value and the property (the wording is that of V8, the engine of Node and
  Electron).
\<close>

datatype caught = Null | Undefined | Value thrown

definition TypeError :: "string \<Rightarrow> thrown" where
  "TypeError msg =
     \<lparr>err_message = msg, err_stdout = [], err_stderr = [], err_code = None,
      as_string = ''TypeError: '' @ msg\<rparr>"

definition cannot_read :: "string \<Rightarrow> string \<Rightarrow> thrown" where
  "cannot_read what property =
     TypeError (''Cannot read properties of '' @ what @ '' (reading '' @ [CHR 0x27] @ property @
                [CHR 0x27] @ '')'')"

text \<open>\<^verbatim>\<open>error.code || 1\<close>\<close>

definition code_or_1 :: "js_code option \<Rightarrow> js_code" where
  "code_or_1 c =
     (case c of
        None \<Rightarrow> Num 1
      | Some (Num n) \<Rightarrow> if n = 0 then Num 1 else Num n
      | Some (Str s) \<Rightarrow> if s = [] then Num 1 else Str s)"

section \<open>agentSandbox.ts: the command allow-list\<close>

text \<open>
  \<^verbatim>\<open>new RegExp(source)\<close> followed by \<^verbatim>\<open>pattern.test(command)\<close> belongs to the
  platform. It is a parameter of the model: given the source of the pattern and the
  command it either throws (a SyntaxError for a malformed pattern) or answers the test.
\<close>

type_synonym regexp = "string \<Rightarrow> string \<Rightarrow> thrown + bool"

definition defaultAllowed :: "string list" where
  "defaultAllowed =
     [''npm test'', ''npm run test'', ''npx jest'', ''npx mocha'', ''npx tsc'', ''node'',
      ''python -m pytest'']"

text \<open>The callback given to \<^verbatim>\<open>allowedCommands.some\<close>, for one entry of the list.\<close>

definition allowedEntry :: "regexp \<Rightarrow> string \<Rightarrow> string \<Rightarrow> thrown + bool" where
  "allowedEntry rx command allowed =
     (if startsWith allowed ''/'' \<and> endsWith allowed ''/''
      then rx (take (length allowed - 2) (drop 1 allowed)) command
      else Inr (startsWith command allowed))"

text \<open>
  \<^verbatim>\<open>Array.prototype.some\<close> with a callback that may throw: the entries are tried in
  order, the first true answer ends the scan, and an exception leaves it at once.
\<close>

fun some_entry :: "('a \<Rightarrow> thrown + bool) \<Rightarrow> 'a list \<Rightarrow> thrown + bool" where
  "some_entry f [] = Inr False"
| "some_entry f (x # xs) =
     (case f x of
        Inl e \<Rightarrow> Inl e
      | Inr True \<Rightarrow> Inr True
      | Inr False \<Rightarrow> some_entry f xs)"

definition isCommandAllowed :: "regexp \<Rightarrow> string \<Rightarrow> string list option \<Rightarrow> thrown + bool" where
  "isCommandAllowed rx command allowedCommands =
     (case allowedCommands of
        None \<Rightarrow> Inr (list_ex (\<lambda>allowed. startsWith command allowed) defaultAllowed)
      | Some cs \<Rightarrow>
          if cs = [] then Inr (list_ex (\<lambda>allowed. startsWith command allowed) defaultAllowed)
          else some_entry (allowedEntry rx command) cs)"

text \<open>
  \<^verbatim>\<open>parseCommand\<close>: the loop over the characters of the command, with its four
  variables; \<^verbatim>\<open>quoteChar\<close> is \<open>None\<close> for the empty string it starts with.
\<close>

fun parseLoop :: "string \<Rightarrow> string list \<Rightarrow> string \<Rightarrow> bool \<Rightarrow> char option \<Rightarrow> string list" where
  "parseLoop [] parts current inQuotes quoteChar =
     (if truthy current then parts @ [current] else parts)"
| "parseLoop (c # cs) parts current inQuotes quoteChar =
     (if (c = CHR 0x22 \<or> c = CHR 0x27) \<and> \<not> inQuotes
        then parseLoop cs parts current True (Some c)
      else if Some c = quoteChar \<and> inQuotes
        then parseLoop cs parts current False None
      else if c = CHR '' '' \<and> \<not> inQuotes
        then (if truthy current then parseLoop cs (parts @ [current]) [] inQuotes quoteChar
              else parseLoop cs parts current inQuotes quoteChar)
      else parseLoop cs parts (current @ [c]) inQuotes quoteChar)"

definition parseCommand :: "string \<Rightarrow> string list" where
  "parseCommand command = parseLoop command [] [] False None"

section \<open>agentSandbox.ts: lazily loaded Node modules\<close>

text \<open>
  The module keeps \<^verbatim>\<open>_nodeRequire\<close>, \<^verbatim>\<open>_promisify\<close>, \<^verbatim>\<open>_exec\<close> with \<^verbatim>\<open>_spawn\<close>,
  \<^verbatim>\<open>_fsPromises\<close>, \<^verbatim>\<open>_crypto\<close> and \<^verbatim>\<open>_execAsync\<close> in variables that are filled on
  first use. The record says which are filled. The environment says what
  \<^verbatim>\<open>eval('require')\<close> finds and whether \<^verbatim>\<open>process.versions\<close> names Node or Electron.
  A loader returns the new variables, or the value it throws (the variables are then
  unchanged).
\<close>

record node_env =
  eval_require :: bool
  node_or_electron :: bool

record modules =
  nodeRequire :: bool
  promisify :: bool
  exec_spawn :: bool
  fsPromises :: bool
  crypto :: bool
  execAsync :: bool

definition getNodeRequire :: "node_env \<Rightarrow> modules \<Rightarrow> thrown + modules" where
  "getNodeRequire env m =
     (if \<not> nodeRequire m then
        (if eval_require env then Inr (m\<lparr>nodeRequire := True\<rparr>)
         else if \<not> node_or_electron env
           then Inl (Error ''AgentSandbox can only be used in Node.js/Electron contexts. require is not available.'')
         else Inl (Error ''Node.js require is not available. AgentSandbox requires Node.js integration to be enabled.''))
      else Inr m)"

definition getPromisify :: "node_env \<Rightarrow> modules \<Rightarrow> thrown + modules" where
  "getPromisify env m =
     (if \<not> promisify m then
        (case getNodeRequire env m of Inl e \<Rightarrow> Inl e | Inr m' \<Rightarrow> Inr (m'\<lparr>promisify := True\<rparr>))
      else Inr m)"

definition getExec :: "node_env \<Rightarrow> modules \<Rightarrow> thrown + modules" where
  "getExec env m =
     (if \<not> exec_spawn m then
        (case getNodeRequire env m of Inl e \<Rightarrow> Inl e | Inr m' \<Rightarrow> Inr (m'\<lparr>exec_spawn := True\<rparr>))
      else Inr m)"

definition getSpawn :: "node_env \<Rightarrow> modules \<Rightarrow> thrown + modules" where
  "getSpawn env m = (if \<not> exec_spawn m then getExec env m else Inr m)"

definition getFsPromises :: "node_env \<Rightarrow> modules \<Rightarrow> thrown + modules" where
  "getFsPromises env m =
     (if \<not> fsPromises m then
        (case getNodeRequire env m of Inl e \<Rightarrow> Inl e | Inr m' \<Rightarrow> Inr (m'\<lparr>fsPromises := True\<rparr>))
      else Inr m)"

definition getCrypto :: "node_env \<Rightarrow> modules \<Rightarrow> thrown + modules" where
  "getCrypto env m =
     (if \<not> crypto m then
        (case getNodeRequire env m of Inl e \<Rightarrow> Inl e | Inr m' \<Rightarrow> Inr (m'\<lparr>crypto := True\<rparr>))
      else Inr m)"

definition getExecAsync :: "node_env \<Rightarrow> modules \<Rightarrow> thrown + modules" where
  "getExecAsync env m =
     (if \<not> execAsync m then
        (case getPromisify env m of
           Inl e \<Rightarrow> Inl e
         | Inr m1 \<Rightarrow>
             (case getExec env m1 of Inl e \<Rightarrow> Inl e | Inr m2 \<Rightarrow> Inr (m2\<lparr>execAsync := True\<rparr>)))
      else Inr m)"

section \<open>agentSandbox.ts: sandbox ids\<close>

text \<open>
  \<^verbatim>\<open>createHash('sha256').update(content).digest('hex')\<close> is Node's; the model takes
  the function from a content to its 64 hexadecimal digits as the parameter \<open>sha256\<close>.
  The result has the identifier, when none is thrown, and the module variables after
  the call.
\<close>

definition generateSandboxId ::
  "node_env \<Rightarrow> (string \<Rightarrow> string) \<Rightarrow> string \<Rightarrow> modules \<Rightarrow> (thrown + string) \<times> modules" where
  "generateSandboxId env sha256 content m =
     (case getCrypto env m of
        Inl e \<Rightarrow> (Inl e, m)
      | Inr m' \<Rightarrow> (Inr (take 16 (sha256 content)), m'))"

section \<open>agentSandbox.ts: running scripts and commands\<close>

record SandboxExecutionResult =
  success :: bool
  stdout :: string
  stderr :: string
  exitCode :: js_code
  duration :: nat

text \<open>
  \<^verbatim>\<open>timeout\<close> and \<^verbatim>\<open>maxMemory\<close> are non-negative integers here; \<^verbatim>\<open>env\<close> is the
  dictionary of the caller's variables.
\<close>

record SandboxOptions =
  timeout :: "nat option"
  maxMemory :: "nat option"
  allowedCommands :: "string list option"
  workingDirectory :: "string option"
  env :: "(string \<rightharpoonup> string) option"

text \<open>
  What a call does to the file system and to the process table, in the order it does
  it. A launch carries the command, the working directory, the environment and, for
  \<^verbatim>\<open>exec\<close>, the timeout handed to it.
\<close>

datatype effect =
    CreateFolder string
  | WriteFile string string
  | Exec string string "string \<rightharpoonup> string" nat
  | Spawn "string option" "string list" string "string \<rightharpoonup> string"
  | Remove string

definition joinPath :: "string \<Rightarrow> string \<Rightarrow> string" where
  "joinPath dir name = dir @ ''/'' @ name"

text \<open>
  \<^verbatim>\<open>cleanupSandbox\<close> catches whatever its body throws, the failure to load
  \<^verbatim>\<open>fs\<close> included, so it only has effects.
\<close>

definition cleanupSandbox :: "node_env \<Rightarrow> string \<Rightarrow> modules \<Rightarrow> effect list \<times> modules" where
  "cleanupSandbox nenv dir m =
     (case getFsPromises nenv m of
        Inl e \<Rightarrow> ([], m)
      | Inr m' \<Rightarrow> ([Remove dir], m'))"

definition createTimeoutPromise :: "nat \<Rightarrow> thrown" where
  "createTimeoutPromise t = Error (''Execution timeout after '' @ show_nat t @ ''ms'')"

definition createCancellationPromise :: thrown where
  "createCancellationPromise = Error ''Execution cancelled''"

definition cwd_of :: "SandboxOptions \<Rightarrow> string \<Rightarrow> string" where
  "cwd_of options sandboxDir =
     (case workingDirectory options of None \<Rightarrow> sandboxDir | Some w \<Rightarrow> or_else w sandboxDir)"

definition caller_env :: "SandboxOptions \<Rightarrow> (string \<rightharpoonup> string)" where
  "caller_env options = (case env options of None \<Rightarrow> Map.empty | Some e \<Rightarrow> e)"

text \<open>
  The outside of \<^verbatim>\<open>executeInVM\<close>: whether the file service fails to create the
  folder or to write the script, which of the three promises of \<^verbatim>\<open>Promise.race\<close>
  settles first and how, and the time between the two readings of the clock. The
  cancellation promise can only win when a token was passed.
\<close>

datatype race = ExecResolves string string | ExecRejects caught | TimerFires | TokenFires

record vm_world =
  vm_createFolder :: "caught option"
  vm_writeFile :: "caught option"
  vm_race :: race
  vm_elapsed :: nat

text \<open>
  The \<^verbatim>\<open>try\<close> block of \<^verbatim>\<open>executeInVM\<close>; \<open>Inl\<close> is the value it throws. The
  timeout, the cancellation and a loader that fails throw Error objects; a rejection of
  the file service or of \<^verbatim>\<open>exec\<close> is passed on as it is.
\<close>

definition executeInVM_try ::
  "node_env \<Rightarrow> (string \<rightharpoonup> string) \<Rightarrow> vm_world \<Rightarrow> string \<Rightarrow> string \<Rightarrow> SandboxOptions \<Rightarrow> modules
     \<Rightarrow> (caught + SandboxExecutionResult) \<times> effect list \<times> modules" where
  "executeInVM_try nenv process_env W sandboxDir code options m =
     (case vm_createFolder W of
        Some e \<Rightarrow> (Inl e, [], m)
      | None \<Rightarrow>
     (let codeFile = joinPath sandboxDir ''script.js'' in
      case vm_writeFile W of
        Some e \<Rightarrow> (Inl e, [CreateFolder sandboxDir], m)
      | None \<Rightarrow>
     (let env' = (process_env ++ caller_env options)
                   (''NODE_ENV'' \<mapsto> ''production'', ''NPM_TOKEN'' := None, ''GITHUB_TOKEN'' := None);
          timeout' = (case timeout options of None \<Rightarrow> 30000 | Some t \<Rightarrow> if t = 0 then 30000 else t);
          command = ''node '' @ [CHR 0x22] @ codeFile @ [CHR 0x22];
          written = [CreateFolder sandboxDir, WriteFile codeFile code]
      in
      case getExecAsync nenv m of
        Inl e \<Rightarrow> (Inl (Value e), written, m)
      | Inr m1 \<Rightarrow>
     (let launched = written @ [Exec command (cwd_of options sandboxDir) env' timeout'] in
      case vm_race W of
        ExecRejects e \<Rightarrow> (Inl e, launched, m1)
      | TimerFires \<Rightarrow> (Inl (Value (createTimeoutPromise timeout')), launched, m1)
      | TokenFires \<Rightarrow> (Inl (Value createCancellationPromise), launched, m1)
      | ExecResolves out err \<Rightarrow>
          (let (removed, m2) = cleanupSandbox nenv sandboxDir m1 in
           (Inr \<lparr>success = True, stdout = out, stderr = err, exitCode = Num 0,
                 duration = vm_elapsed W\<rparr>,
            launched @ removed, m2))))))"

text \<open>
  \<^verbatim>\<open>executeInVM\<close>: the sandbox id is computed before the \<^verbatim>\<open>try\<close> block, so what
  \<^verbatim>\<open>generateSandboxId\<close> throws leaves the function. The \<^verbatim>\<open>catch\<close> block cleans up
  and then reads \<^verbatim>\<open>error.stdout\<close>, the first property of the object it returns, which
  throws when the value caught is \<^verbatim>\<open>null\<close> or \<^verbatim>\<open>undefined\<close>.
\<close>

definition executeInVM ::
  "node_env \<Rightarrow> (string \<Rightarrow> string) \<Rightarrow> (string \<rightharpoonup> string) \<Rightarrow> string \<Rightarrow> vm_world \<Rightarrow> string
     \<Rightarrow> SandboxOptions \<Rightarrow> modules \<Rightarrow> (thrown + SandboxExecutionResult) \<times> effect list \<times> modules" where
  "executeInVM nenv sha256 process_env sandboxRoot W code options m =
     (case generateSandboxId nenv sha256 code m of
        (Inl e, m0) \<Rightarrow> (Inl e, [], m0)
      | (Inr sandboxId, m0) \<Rightarrow>
          (case executeInVM_try nenv process_env W (joinPath sandboxRoot sandboxId) code options m0 of
             (Inr r, fx, m1) \<Rightarrow> (Inr r, fx, m1)
           | (Inl error, fx, m1) \<Rightarrow>
               (let sandboxDir = joinPath sandboxRoot sandboxId;
                    (removed, m2) = cleanupSandbox nenv sandboxDir m1
                in case error of
                     Null \<Rightarrow> (Inl (cannot_read ''null'' ''stdout''), fx @ removed, m2)
                   | Undefined \<Rightarrow> (Inl (cannot_read ''undefined'' ''stdout''), fx @ removed, m2)
                   | Value e \<Rightarrow>
                       (Inr \<lparr>success = False,
                             stdout = err_stdout e,
                             stderr = or_else (err_stderr e) (or_else (err_message e) (as_string e)),
                             exitCode = code_or_1 (err_code e),
                             duration = vm_elapsed W\<rparr>,
                        fx @ removed, m2))))"

text \<open>
  The outside of \<^verbatim>\<open>executeTests\<close>: whether the folder can be created, and what
  becomes of \<^verbatim>\<open>spawn\<close>: it throws at once (an Error object, as Node does), or the
  child emits \<^verbatim>\<open>close\<close> with its exit code (\<open>None\<close> when a signal ended it, as the
  timer and the cancellation listener do with SIGTERM) after writing the two streams, or
  it emits \<^verbatim>\<open>error\<close> first, with an Error object and after writing to \<^verbatim>\<open>stdout\<close>.
  A child that has emitted \<^verbatim>\<open>error\<close> emits \<^verbatim>\<open>close\<close> afterwards.
\<close>

datatype child = SpawnThrows thrown | Closes "int option" string string | Errors thrown string

record test_world =
  t_createFolder :: "caught option"
  t_child :: child
  t_elapsed :: nat

text \<open>
  The executor of the promise that \<^verbatim>\<open>executeTests\<close> returns from inside its
  \<^verbatim>\<open>try\<close> block. What it throws rejects that promise; the promise is returned
  without \<^verbatim>\<open>await\<close>, so the rejection passes the \<^verbatim>\<open>catch\<close> block by. Each of
  the two listeners calls \<^verbatim>\<open>cleanupSandbox\<close> and then \<^verbatim>\<open>resolve\<close>. After an
  \<^verbatim>\<open>error\<close> event the \<^verbatim>\<open>close\<close> listener runs as well: its \<^verbatim>\<open>resolve\<close> comes
  second and changes nothing, its clean-up removes the folder once more.
\<close>

definition spawn_promise ::
  "node_env \<Rightarrow> test_world \<Rightarrow> string \<Rightarrow> string option \<Rightarrow> string list \<Rightarrow> string \<Rightarrow> (string \<rightharpoonup> string)
     \<Rightarrow> modules \<Rightarrow> (thrown + SandboxExecutionResult) \<times> effect list \<times> modules" where
  "spawn_promise nenv W sandboxDir cmd args workingDir env' m =
     (case getSpawn nenv m of
        Inl e \<Rightarrow> (Inl e, [], m)
      | Inr m1 \<Rightarrow>
     (case t_child W of
        SpawnThrows e \<Rightarrow> (Inl e, [], m1)
      | Closes code out err \<Rightarrow>
          (let (removed, m2) = cleanupSandbox nenv sandboxDir m1 in
           (Inr \<lparr>success = (code = Some 0), stdout = out, stderr = err,
                 exitCode = Num (case code of None \<Rightarrow> 0 | Some c \<Rightarrow> c),
                 duration = t_elapsed W\<rparr>,
            Spawn cmd args workingDir env' # removed, m2))
      | Errors error out \<Rightarrow>
          (let (removed, m2) = cleanupSandbox nenv sandboxDir m1;
               (removed_again, m3) = cleanupSandbox nenv sandboxDir m2 in
           (Inr \<lparr>success = False, stdout = out, stderr = err_message error, exitCode = Num 1,
                 duration = t_elapsed W\<rparr>,
            Spawn cmd args workingDir env' # removed @ removed_again, m3))))"

text \<open>
  \<^verbatim>\<open>executeTests\<close>: the sandbox id and the allow-list check come before the
  \<^verbatim>\<open>try\<close> block. Inside it only \<^verbatim>\<open>createFolder\<close> is awaited; the \<^verbatim>\<open>catch\<close>
  block reads \<^verbatim>\<open>error.message\<close> from what that promise rejects with.
\<close>

definition executeTests ::
  "node_env \<Rightarrow> regexp \<Rightarrow> (string \<Rightarrow> string) \<Rightarrow> (string \<rightharpoonup> string) \<Rightarrow> string \<Rightarrow> test_world \<Rightarrow> string
     \<Rightarrow> SandboxOptions \<Rightarrow> modules \<Rightarrow> (thrown + SandboxExecutionResult) \<times> effect list \<times> modules" where
  "executeTests nenv rx sha256 process_env sandboxRoot W testCommand options m =
     (case generateSandboxId nenv sha256 testCommand m of
        (Inl e, m0) \<Rightarrow> (Inl e, [], m0)
      | (Inr sandboxId, m0) \<Rightarrow>
     (case isCommandAllowed rx testCommand (allowedCommands options) of
        Inl e \<Rightarrow> (Inl e, [], m0)
      | Inr False \<Rightarrow>
          (Inr \<lparr>success = False, stdout = [], stderr = ''Command not allowed: '' @ testCommand,
                exitCode = Num 1, duration = t_elapsed W\<rparr>, [], m0)
      | Inr True \<Rightarrow>
     (let sandboxDir = joinPath sandboxRoot sandboxId in
      case t_createFolder W of
        Some Null \<Rightarrow> (Inl (cannot_read ''null'' ''message''), [], m0)
      | Some Undefined \<Rightarrow> (Inl (cannot_read ''undefined'' ''message''), [], m0)
      | Some (Value e) \<Rightarrow>
          (Inr \<lparr>success = False, stdout = [],
                stderr = or_else (err_message e) (as_string e),
                exitCode = Num 1, duration = t_elapsed W\<rparr>, [], m0)
      | None \<Rightarrow>
     (let workingDir = cwd_of options sandboxDir;
          parts = parseCommand testCommand;
          cmd = (case parts of [] \<Rightarrow> None | c # _ \<Rightarrow> Some c);
          args = tl parts;
          env' = (process_env ++ caller_env options)(''NODE_ENV'' \<mapsto> ''test'');
          (r, fx, m1) = spawn_promise nenv W sandboxDir cmd args workingDir env' m0
      in (r, CreateFolder sandboxDir # fx, m1)))))"

section \<open>agentSandbox.ts: validating changes\<close>

text \<open>
  The seven dangerous patterns are regular expressions built from four kinds of items:
  a literal character, \<^verbatim>\<open>\s*\<close>, \<^verbatim>\<open>\s+\<close> and a class of characters. \<open>ws_len\<close> is the
  number of bytes of the white-space character (in the sense of \<^verbatim>\<open>\s\<close>) a string of
  bytes begins with, or 0 when it begins with none.
\<close>

datatype atom = Lit char | Ws_star | Ws_plus | One_of string

definition ws1 :: "nat \<Rightarrow> bool" where
  "ws1 a = ((9 \<le> a \<and> a \<le> 13) \<or> a = 32)"

definition ws2 :: "nat \<Rightarrow> nat \<Rightarrow> bool" where
  "ws2 a b = (a = 0xC2 \<and> b = 0xA0)"

definition ws3 :: "nat \<Rightarrow> nat \<Rightarrow> nat \<Rightarrow> bool" where
  "ws3 a b c =
     (a = 0xE1 \<and> b = 0x9A \<and> c = 0x80 \<or>
      a = 0xE2 \<and> b = 0x80 \<and> ((0x80 \<le> c \<and> c \<le> 0x8A) \<or> c = 0xA8 \<or> c = 0xA9 \<or> c = 0xAF) \<or>
      a = 0xE2 \<and> b = 0x81 \<and> c = 0x9F \<or>
      a = 0xE3 \<and> b = 0x80 \<and> c = 0x80 \<or>
      a = 0xEF \<and> b = 0xBB \<and> c = 0xBF)"

fun ws_len :: "nat list \<Rightarrow> nat" where
  "ws_len (a # b # c # _) = (if ws1 a then 1 else if ws2 a b then 2 else if ws3 a b c then 3 else 0)"
| "ws_len [a, b] = (if ws1 a then 1 else if ws2 a b then 2 else 0)"
| "ws_len [a] = (if ws1 a then 1 else 0)"
| "ws_len [] = 0"

definition skip_ws :: "string \<Rightarrow> string option" where
  "skip_ws s =
     (let n = ws_len (map of_char (take 3 s)) in if n = 0 then None else Some (drop n s))"

lemma ws_len_le: "ws_len bs \<le> length bs"
  by (induction bs rule: ws_len.induct) auto

lemma skip_ws_shorter: "skip_ws s = Some r \<Longrightarrow> length r < length s"
proof -
  assume a: "skip_ws s = Some r"
  let ?n = "ws_len (map of_char (take 3 s))"
  from a have n: "?n \<noteq> 0" and r: "r = drop ?n s"
    by (auto simp: skip_ws_def Let_def split: if_splits)
  have "?n \<le> length (map (of_char :: char \<Rightarrow> nat) (take 3 s))" by (rule ws_len_le)
  then have "?n \<le> length s" by simp
  with n r show ?thesis by simp
qed

function rx_match :: "atom list \<Rightarrow> string \<Rightarrow> bool" where
  "rx_match [] s = True"
| "rx_match (Lit c # p) s = (case s of [] \<Rightarrow> False | x # xs \<Rightarrow> x = c \<and> rx_match p xs)"
| "rx_match (One_of cs # p) s = (case s of [] \<Rightarrow> False | x # xs \<Rightarrow> x \<in> set cs \<and> rx_match p xs)"
| "rx_match (Ws_star # p) s =
     (rx_match p s \<or> (case skip_ws s of None \<Rightarrow> False | Some r \<Rightarrow> rx_match (Ws_star # p) r))"
| "rx_match (Ws_plus # p) s =
     (case skip_ws s of None \<Rightarrow> False | Some r \<Rightarrow> rx_match (Ws_star # p) r)"
  by pat_completeness auto
termination
  by (relation "measures [\<lambda>(p, s). length s, \<lambda>(p, s). length p]")
     (auto dest: skip_ws_shorter)

text \<open>\<^verbatim>\<open>pattern.test(s)\<close> for a pattern without anchors: a match may start anywhere.\<close>

fun rx_test :: "atom list \<Rightarrow> string \<Rightarrow> bool" where
  "rx_test p [] = rx_match p []"
| "rx_test p (c # s) = (rx_match p (c # s) \<or> rx_test p s)"

text \<open>The text of a pattern, as \<^verbatim>\<open>`${pattern}`\<close> prints it between two slashes.\<close>

fun atom_source :: "atom \<Rightarrow> string" where
  "atom_source (Lit c) =
     (if c \<in> set ''().'' \<or> c = CHR ''/'' then [CHR 0x5C, c] else [c])"
| "atom_source Ws_star = [CHR 0x5C] @ ''s*''"
| "atom_source Ws_plus = [CHR 0x5C] @ ''s+''"
| "atom_source (One_of cs) = ''['' @ cs @ '']''"

definition pattern_toString :: "atom list \<Rightarrow> string" where
  "pattern_toString p = ''/'' @ concat (map atom_source p) @ ''/''"

definition quote :: atom where
  "quote = One_of [CHR 0x27, CHR 0x22]"

definition dangerousPatterns :: "atom list list" where
  "dangerousPatterns =
     [map Lit ''eval'' @ [Ws_star, Lit CHR ''(''],
      map Lit ''Function'' @ [Ws_star, Lit CHR ''(''],
      map Lit ''require'' @ [Ws_star, Lit CHR ''('', Ws_star, quote] @ map Lit ''child_process'' @ [quote],
      map Lit ''require'' @ [Ws_star, Lit CHR ''('', Ws_star, quote] @ map Lit ''fs'' @ [quote],
      map Lit ''process.exit'',
      map Lit ''rm'' @ [Ws_plus] @ map Lit ''-rf'',
      map Lit ''rmdir'' @ [Ws_plus] @ map Lit ''/s'']"

record URI =
  path :: string
  toString :: string

record file_change =
  uri :: URI
  content :: string

definition dangerous_message :: "file_change \<Rightarrow> atom list \<Rightarrow> string" where
  "dangerous_message file pattern =
     ''Dangerous pattern detected in '' @ toString (uri file) @ '': '' @ pattern_toString pattern"

text \<open>The two nested loops, pushing onto \<^verbatim>\<open>errors\<close>.\<close>

fun scan_patterns :: "file_change \<Rightarrow> atom list list \<Rightarrow> string list \<Rightarrow> string list" where
  "scan_patterns file [] errors = errors"
| "scan_patterns file (pattern # ps) errors =
     scan_patterns file ps
       (if rx_test pattern (content file) then errors @ [dangerous_message file pattern] else errors)"

fun scan_files :: "file_change list \<Rightarrow> string list \<Rightarrow> string list" where
  "scan_files [] errors = errors"
| "scan_files (file # fs) errors = scan_files fs (scan_patterns file dangerousPatterns errors)"

definition ts_check_script :: string where
  "ts_check_script =
     ''const ts = require('' @ [CHR 0x27] @ ''typescript'' @ [CHR 0x27] @
     ''); const result = ts.transpileModule(code, { compilerOptions: { noEmit: true } });''"

record validation =
  valid :: bool
  errors :: "string list"

definition validateChanges ::
  "node_env \<Rightarrow> (string \<Rightarrow> string) \<Rightarrow> (string \<rightharpoonup> string) \<Rightarrow> string \<Rightarrow> vm_world \<Rightarrow> file_change list
     \<Rightarrow> SandboxOptions \<Rightarrow> modules \<Rightarrow> validation \<times> effect list \<times> modules" where
  "validateChanges nenv sha256 process_env sandboxRoot W files options m =
     (let errors0 = scan_files files [];
          tsFiles = filter (\<lambda>f. endsWith (path (uri f)) ''.ts'' \<or> endsWith (path (uri f)) ''.tsx'') files;
          skip = (case env options of
                    None \<Rightarrow> False
                  | Some e \<Rightarrow> (case e ''SKIP_TS_CHECK'' of None \<Rightarrow> False | Some v \<Rightarrow> truthy v));
          (errors1, fx, m1) =
            (if tsFiles \<noteq> [] \<and> \<not> skip then
               (case executeInVM nenv sha256 process_env sandboxRoot W ts_check_script
                       \<lparr>timeout = Some 10000, maxMemory = None, allowedCommands = None,
                        workingDirectory = None, env = None\<rparr> m of
                  (Inr result, fx, m') \<Rightarrow>
                    (if \<not> success result
                     then errors0 @ [''TypeScript validation failed: '' @ stderr result]
                     else errors0, fx, m')
                | (Inl e, fx, m') \<Rightarrow> (errors0, fx, m'))
             else (errors0, [], m))
      in (\<lparr>valid = (errors1 = []), errors = errors1\<rparr>, fx, m1))"

section \<open>agentService.ts: tasks, steps and plans\<close>

datatype AgentTaskStatus = Task_Pending | Task_Running | Task_Completed | Task_Failed | Task_Cancelled

datatype AgentStepType = Search | Generate | Edit | Test | Verify | Custom

datatype AgentStepStatus = Step_Pending | Step_Running | Step_Completed | Step_Failed | Step_Skipped

text \<open>
  The \<^verbatim>\<open>result\<close> of a step has type \<^verbatim>\<open>any\<close>; these are the objects the handlers of
  \<^verbatim>\<open>agentServiceImpl.ts\<close> build.
\<close>

datatype step_result =
    DryRun
  | Found nat "string list"
  | Generated string string
  | Edited string
  | TestsRun bool
  | Verified

record AgentStep =
  step_id :: string
  step_type :: AgentStepType
  step_name :: string
  step_status :: AgentStepStatus
  step_result :: "step_result option"
  step_error :: "string option"

record AgentTask =
  task_id :: string
  task_name :: string
  task_description :: string
  task_status :: AgentTaskStatus
  task_steps :: "AgentStep list"
  currentStep :: "nat option"
  task_error :: "string option"

record plan_step =
  plan_type :: AgentStepType
  description :: string

record AgentPlan =
  steps :: "plan_step list"

record AgentExecutionOptions =
  maxSteps :: "int option"
  retryOnFailure :: "bool option"
  stopOnError :: "bool option"
  dryRun :: "bool option"

text \<open>The options object \<^verbatim>\<open>executeTask\<close> hands to \<^verbatim>\<open>executeSteps\<close>, defaults filled in.\<close>

record step_options =
  retry_on_failure :: bool
  stop_on_error :: bool
  dry_run :: bool

section \<open>agentServiceImpl.ts: planning\<close>

text \<open>
  \<^verbatim>\<open>planText.match(/\[[\s\S]*\]/)\<close>: the match starts at the first opening bracket
  and, the star being greedy, ends at the last closing bracket after it; there is no
  match when no closing bracket follows an opening one.
\<close>

fun upto_last :: "char \<Rightarrow> string \<Rightarrow> string option" where
  "upto_last c [] = None"
| "upto_last c (x # xs) =
     (case upto_last c xs of
        Some r \<Rightarrow> Some (x # r)
      | None \<Rightarrow> if x = c then Some [x] else None)"

definition match_array :: "string \<Rightarrow> string option" where
  "match_array planText =
     (case dropWhile (\<lambda>x. x \<noteq> CHR ''['') planText of
        [] \<Rightarrow> None
      | b # rest \<Rightarrow> (case upto_last CHR '']'' rest of None \<Rightarrow> None | Some r \<Rightarrow> Some (b # r)))"

text \<open>
  A plan is what \<^verbatim>\<open>JSON.parse\<close> made of the matched text, returned unchecked, or the
  four steps written in the code. \<^verbatim>\<open>JSON.parse\<close> is the platform's and a parameter
  of the model: it throws or yields a value of the type \<open>'j\<close>.
\<close>

datatype 'j planned = Parsed 'j | Steps "plan_step list"

definition fallback_plan :: "string \<Rightarrow> plan_step list" where
  "fallback_plan d =
     [\<lparr>plan_type = Search, description = ''Search for files related to: '' @ d\<rparr>,
      \<lparr>plan_type = Generate, description = ''Generate code for: '' @ d\<rparr>,
      \<lparr>plan_type = Edit, description = ''Apply changes''\<rparr>,
      \<lparr>plan_type = Verify, description = ''Verify changes work correctly''\<rparr>]"

text \<open>
  \<^verbatim>\<open>planTask\<close>. \<open>activeModel\<close> is what \<^verbatim>\<open>getActiveModel()\<close> returns and \<open>response\<close>
  how the awaited \<^verbatim>\<open>requestCompletion\<close> settles for the prompt built from the
  description and the context: rejected with a message, or resolved with a text. The
  \<^verbatim>\<open>catch\<close> block logs and throws the same value again.
\<close>

definition planTask ::
  "(string \<Rightarrow> error + 'j) \<Rightarrow> string option \<Rightarrow> (error + string) \<Rightarrow> string \<Rightarrow> error + 'j planned" where
  "planTask JSON_parse activeModel response d =
     (case activeModel of
        None \<Rightarrow> Inl ''No AI model configured''
      | Some activeModelId \<Rightarrow>
          if \<not> truthy activeModelId then Inl ''No AI model configured''
          else
            (case response of
               Inl e \<Rightarrow> Inl e
             | Inr planText \<Rightarrow>
                 (case match_array planText of
                    Some jsonMatch \<Rightarrow>
                      (case JSON_parse jsonMatch of Inl e \<Rightarrow> Inl e | Inr v \<Rightarrow> Inr (Parsed v))
                  | None \<Rightarrow> Inr (Steps (fallback_plan d)))))"

section \<open>agentServiceImpl.ts: executing the steps of a task\<close>

text \<open>
  What the collaborators do while one step is in flight: the active model, the search
  of the context service for a query (the URIs of its results, or the message of the
  error it throws), the completion for a prompt (text and model id, or the message of
  the error) and whether the terminal command throws.
\<close>

record collaborators =
  getActiveModel :: "string option"
  search :: "string \<Rightarrow> error + string list"
  requestCompletion :: "string \<Rightarrow> error + string \<times> string"
  executeCommand :: "error option"

definition type_text :: "AgentStepType \<Rightarrow> string" where
  "type_text ty =
     (case ty of Search \<Rightarrow> ''search'' | Generate \<Rightarrow> ''generate'' | Edit \<Rightarrow> ''edit''
      | Test \<Rightarrow> ''test'' | Verify \<Rightarrow> ''verify'' | Custom \<Rightarrow> ''custom'')"

definition executeSearchStep :: "collaborators \<Rightarrow> AgentStep \<Rightarrow> error + step_result" where
  "executeSearchStep c step =
     (case search c (step_name step) of
        Inl e \<Rightarrow> Inl e
      | Inr results \<Rightarrow> Inr (Found (length results) results))"

definition executeGenerateStep :: "collaborators \<Rightarrow> AgentStep \<Rightarrow> error + step_result" where
  "executeGenerateStep c step =
     (case getActiveModel c of
        None \<Rightarrow> Inl ''No AI model configured''
      | Some activeModelId \<Rightarrow>
          if \<not> truthy activeModelId then Inl ''No AI model configured''
          else
            (case requestCompletion c (step_name step) of
               Inl e \<Rightarrow> Inl e
             | Inr (text, modelId) \<Rightarrow> Inr (Generated text modelId)))"

definition executeEditStep :: "string \<Rightarrow> error + step_result" where
  "executeEditStep context = Inr (Edited context)"

definition executeTestStep :: "collaborators \<Rightarrow> error + step_result" where
  "executeTestStep c =
     (case executeCommand c of None \<Rightarrow> Inr (TestsRun True) | Some e \<Rightarrow> Inr (TestsRun False))"

definition executeVerifyStep :: "error + step_result" where
  "executeVerifyStep = Inr Verified"

text \<open>\<^verbatim>\<open>executeStep\<close>: \<open>Inl\<close> carries the message of the error the handler throws.\<close>

definition executeStep :: "collaborators \<Rightarrow> AgentStep \<Rightarrow> string \<Rightarrow> step_options \<Rightarrow> error + step_result" where
  "executeStep c step context options =
     (if dry_run options then Inr DryRun
      else
        (case step_type step of
           Search \<Rightarrow> executeSearchStep c step
         | Generate \<Rightarrow> executeGenerateStep c step
         | Edit \<Rightarrow> executeEditStep context
         | Test \<Rightarrow> executeTestStep c
         | Verify \<Rightarrow> executeVerifyStep
         | Custom \<Rightarrow> Inl (''Unknown step type: '' @ type_text (step_type step))))"

text \<open>
  \<^verbatim>\<open>executeSteps\<close> is an asynchronous function: it runs until it awaits the handler of
  a step, and goes on when the handler has settled; other code of the service, such as
  \<^verbatim>\<open>cancelTask\<close>, may run in between. A frame keeps what the suspended call holds:
  the task object it was given (never modified: every update builds a new object), the
  context, the options, and where it stands: awaiting the handler of step \<open>i\<close>,
  returned (the \<^verbatim>\<open>then\<close> callback of \<^verbatim>\<open>executeTask\<close> not yet run), or finished.
\<close>

datatype position = Awaiting nat | Returned | Notified

record frame =
  frame_task :: AgentTask
  frame_context :: string
  frame_options :: step_options
  frame_at :: position

text \<open>
  The state of the service. A cancellation source is made for each task and is known
  by the id of its task: \<open>cancelRequested\<close> is its flag, read by the token the loop
  holds, and \<open>taskCancellations\<close> the set of keys of the table, each key mapped to the
  source of that task. The two emitters are the lists of the tasks they fired.
\<close>

record service =
  tasks :: "string \<rightharpoonup> AgentTask"
  taskCancellations :: "string set"
  cancelRequested :: "string \<Rightarrow> bool"
  loops :: "string \<rightharpoonup> frame"
  onDidTaskUpdate :: "AgentTask list"
  onDidTaskComplete :: "AgentTask list"

definition init :: service where
  "init = \<lparr>tasks = Map.empty, taskCancellations = {}, cancelRequested = (\<lambda>_. False),
           loops = Map.empty, onDidTaskUpdate = [], onDidTaskComplete = []\<rparr>"

text \<open>\<^verbatim>\<open>Partial<AgentTask>\<close> and \<^verbatim>\<open>Partial<AgentStep>\<close>, with the fields the code passes.\<close>

record task_updates =
  set_status :: "AgentTaskStatus option"
  set_error :: "string option"
  set_currentStep :: "nat option"
  set_steps :: "AgentStep list option"

record step_updates =
  set_step_status :: "AgentStepStatus option"
  set_step_result :: "step_result option"
  set_step_error :: "string option"

definition no_updates :: task_updates where
  "no_updates = \<lparr>set_status = None, set_error = None, set_currentStep = None, set_steps = None\<rparr>"

definition no_step_updates :: step_updates where
  "no_step_updates = \<lparr>set_step_status = None, set_step_result = None, set_step_error = None\<rparr>"

definition spread_task :: "AgentTask \<Rightarrow> task_updates \<Rightarrow> AgentTask" where
  "spread_task task u =
     task\<lparr>task_status := (case set_status u of None \<Rightarrow> task_status task | Some v \<Rightarrow> v),
          task_error := (case set_error u of None \<Rightarrow> task_error task | Some v \<Rightarrow> Some v),
          currentStep := (case set_currentStep u of None \<Rightarrow> currentStep task | Some v \<Rightarrow> Some v),
          task_steps := (case set_steps u of None \<Rightarrow> task_steps task | Some v \<Rightarrow> v)\<rparr>"

definition spread_step :: "AgentStep \<Rightarrow> step_updates \<Rightarrow> AgentStep" where
  "spread_step step u =
     step\<lparr>step_status := (case set_step_status u of None \<Rightarrow> step_status step | Some v \<Rightarrow> v),
          step_result := (case set_step_result u of None \<Rightarrow> step_result step | Some v \<Rightarrow> Some v),
          step_error := (case set_step_error u of None \<Rightarrow> step_error step | Some v \<Rightarrow> Some v)\<rparr>"

definition updateTask :: "string \<Rightarrow> task_updates \<Rightarrow> service \<Rightarrow> service" where
  "updateTask taskId updates s =
     (case tasks s taskId of
        None \<Rightarrow> s
      | Some task \<Rightarrow>
          (let updated = spread_task task updates
           in s\<lparr>tasks := (tasks s)(taskId \<mapsto> updated),
                onDidTaskUpdate := onDidTaskUpdate s @ [updated]\<rparr>))"

fun findIndex :: "('a \<Rightarrow> bool) \<Rightarrow> 'a list \<Rightarrow> nat option" where
  "findIndex P [] = None"
| "findIndex P (x # xs) = (if P x then Some 0 else map_option Suc (findIndex P xs))"

definition updateStep :: "string \<Rightarrow> string \<Rightarrow> step_updates \<Rightarrow> service \<Rightarrow> service" where
  "updateStep taskId stepId updates s =
     (case tasks s taskId of
        None \<Rightarrow> s
      | Some task \<Rightarrow>
          (case findIndex (\<lambda>st. step_id st = stepId) (task_steps task) of
             None \<Rightarrow> s
           | Some stepIndex \<Rightarrow>
               (let updatedSteps =
                      (task_steps task)[stepIndex := spread_step (task_steps task ! stepIndex) updates]
                in updateTask taskId (no_updates\<lparr>set_steps := Some updatedSteps\<rparr>) s)))"

definition at :: "string \<Rightarrow> position \<Rightarrow> service \<Rightarrow> service" where
  "at taskId p s =
     (case loops s taskId of
        None \<Rightarrow> s
      | Some f \<Rightarrow> s\<lparr>loops := (loops s)(taskId \<mapsto> f\<lparr>frame_at := p\<rparr>)\<rparr>)"

text \<open>
  The loop from the test \<^verbatim>\<open>i < task.steps.length\<close> of iteration \<open>i\<close> to the next
  \<^verbatim>\<open>await\<close>, or to the end of the function.
\<close>

definition iteration :: "frame \<Rightarrow> nat \<Rightarrow> service \<Rightarrow> service" where
  "iteration f i s =
     (let task = frame_task f in
      if i < length (task_steps task) then
        (if cancelRequested s (task_id task)
         then at (task_id task) Returned
                (updateTask (task_id task) (no_updates\<lparr>set_status := Some Task_Cancelled\<rparr>) s)
         else
           (let step = task_steps task ! i
            in at (task_id task) (Awaiting i)
                 (updateTask (task_id task) (no_updates\<lparr>set_currentStep := Some i\<rparr>)
                    (updateStep (task_id task) (step_id step)
                       (no_step_updates\<lparr>set_step_status := Some Step_Running\<rparr>) s))))
      else at (task_id task) Returned
             (updateTask (task_id task) (no_updates\<lparr>set_status := Some Task_Completed\<rparr>) s))"

text \<open>
  The loop from the point where the awaited handler of step \<open>i\<close> has settled with
  \<open>outcome\<close> (\<open>Inl\<close>: it threw) to the next \<^verbatim>\<open>await\<close> or the end.
\<close>

definition settled :: "frame \<Rightarrow> nat \<Rightarrow> error + step_result \<Rightarrow> service \<Rightarrow> service" where
  "settled f i outcome s =
     (let task = frame_task f; step = task_steps task ! i in
      case outcome of
        Inr result \<Rightarrow>
          iteration f (Suc i)
            (updateStep (task_id task) (step_id step)
               (no_step_updates\<lparr>set_step_status := Some Step_Completed, set_step_result := Some result\<rparr>) s)
      | Inl message \<Rightarrow>
          (let s1 = updateStep (task_id task) (step_id step)
                      (no_step_updates\<lparr>set_step_status := Some Step_Failed, set_step_error := Some message\<rparr>) s
           in if stop_on_error (frame_options f)
              then at (task_id task) Returned
                     (updateTask (task_id task)
                        (no_updates\<lparr>set_status := Some Task_Failed,
                                    set_error := Some (''Step '' @ step_name step @ '' failed: '' @ message)\<rparr>)
                        s1)
              else iteration f (Suc i) s1))"

text \<open>\<^verbatim>\<open>xs.slice(0, n)\<close> for an integer \<open>n\<close>: a negative \<open>n\<close> counts from the end.\<close>

definition slice0 :: "'a list \<Rightarrow> int \<Rightarrow> 'a list" where
  "slice0 xs n = (if n < 0 then take (nat (int (length xs) + n)) xs else take (nat n) xs)"

fun join :: "string \<Rightarrow> string list \<Rightarrow> string" where
  "join sep [] = []"
| "join sep [x] = x"
| "join sep (x # y # ys) = x @ sep @ join sep (y # ys)"

text \<open>The separator of the description: a space, U+2192 and a space.\<close>

definition arrow :: string where
  "arrow = [CHR 0x20, CHR 0xE2, CHR 0x86, CHR 0x92, CHR 0x20]"

text \<open>
  \<^verbatim>\<open>executeTask\<close>. \<open>generateUuid k\<close> is what the \<open>k\<close>-th call of \<^verbatim>\<open>generateUuid\<close>
  within this call returns: the first for the task, the following ones for the steps.
  The source made here is new, so its flag is unset. \<^verbatim>\<open>executeSteps\<close> is called
  without \<^verbatim>\<open>await\<close> and runs up to its first \<^verbatim>\<open>await\<close> before \<^verbatim>\<open>executeTask\<close>
  returns the task object it built. Nothing in \<^verbatim>\<open>executeSteps\<close> throws outside
  its own \<^verbatim>\<open>try\<close>, so the \<^verbatim>\<open>catch\<close> callback attached here never runs.
\<close>

definition executeTask ::
  "AgentPlan \<Rightarrow> string \<Rightarrow> AgentExecutionOptions \<Rightarrow> (nat \<Rightarrow> string) \<Rightarrow> service \<Rightarrow> AgentTask \<times> service" where
  "executeTask plan context options generateUuid s =
     (let maxSteps' = (case maxSteps options of None \<Rightarrow> 10 | Some n \<Rightarrow> n);
          retryOnFailure' = (case retryOnFailure options of None \<Rightarrow> True | Some b \<Rightarrow> b);
          stopOnError' = (case stopOnError options of None \<Rightarrow> True | Some b \<Rightarrow> b);
          dryRun' = (case dryRun options of None \<Rightarrow> False | Some b \<Rightarrow> b);
          taskId = generateUuid 0;
          s1 = s\<lparr>cancelRequested := (cancelRequested s)(taskId := False),
                 taskCancellations := insert taskId (taskCancellations s)\<rparr>;
          steps' = map (\<lambda>(index, step).
                          \<lparr>step_id = generateUuid (Suc index), step_type = plan_type step,
                           step_name = description step, step_status = Step_Pending,
                           step_result = None, step_error = None\<rparr>)
                       (enumerate 0 (slice0 (steps plan) maxSteps'));
          task = \<lparr>task_id = taskId,
                  task_name = ''Task: '' @
                    (case steps plan of [] \<Rightarrow> ''Unknown'' | p # _ \<Rightarrow> or_else (description p) ''Unknown''),
                  task_description = join arrow (map description (steps plan)),
                  task_status = Task_Running,
                  task_steps = steps',
                  currentStep = Some 0,
                  task_error = None\<rparr>;
          s2 = s1\<lparr>tasks := (tasks s1)(taskId \<mapsto> task), onDidTaskUpdate := onDidTaskUpdate s1 @ [task]\<rparr>;
          f = \<lparr>frame_task = task, frame_context = context,
               frame_options = \<lparr>retry_on_failure = retryOnFailure', stop_on_error = stopOnError',
                                 dry_run = dryRun'\<rparr>,
               frame_at = Awaiting 0\<rparr>
      in (task, iteration f 0 (s2\<lparr>loops := (loops s2)(taskId \<mapsto> f)\<rparr>)))"

definition cancelTask :: "string \<Rightarrow> service \<Rightarrow> service" where
  "cancelTask taskId s =
     (if taskId \<in> taskCancellations s then
        (let s1 = s\<lparr>cancelRequested := (cancelRequested s)(taskId := True)\<rparr>;
             s2 = updateTask taskId (no_updates\<lparr>set_status := Some Task_Cancelled\<rparr>) s1
         in s2\<lparr>taskCancellations := taskCancellations s2 - {taskId}\<rparr>)
      else s)"

text \<open>
  What can happen to the service, one at a time: a call of \<^verbatim>\<open>executeTask\<close>; a call of
  \<^verbatim>\<open>cancelTask\<close>; the token given to \<^verbatim>\<open>executeTask\<close> being cancelled, whose listener
  cancels the source of the task; the handler awaited by the loop of a task settling,
  the collaborators having behaved as given; the \<^verbatim>\<open>then\<close> callback of a returned loop.
\<close>

datatype event =
    ExecuteTask AgentPlan string AgentExecutionOptions "nat \<Rightarrow> string"
  | CancelTask string
  | OuterTokenCancelled string
  | StepSettles string collaborators
  | ThenRuns string

fun fire :: "event \<Rightarrow> service \<Rightarrow> service" where
  "fire (ExecuteTask plan context options generateUuid) s =
     snd (executeTask plan context options generateUuid s)"
| "fire (CancelTask taskId) s = cancelTask taskId s"
| "fire (OuterTokenCancelled taskId) s = s\<lparr>cancelRequested := (cancelRequested s)(taskId := True)\<rparr>"
| "fire (StepSettles taskId c) s =
     (case loops s taskId of
        None \<Rightarrow> s
      | Some f \<Rightarrow>
          (case frame_at f of
             Awaiting i \<Rightarrow>
               settled f i
                 (executeStep c (task_steps (frame_task f) ! i) (frame_context f) (frame_options f)) s
           | Returned \<Rightarrow> s
           | Notified \<Rightarrow> s))"
| "fire (ThenRuns taskId) s =
     (case loops s taskId of
        None \<Rightarrow> s
      | Some f \<Rightarrow>
          (if frame_at f = Returned then
             at taskId Notified
               (case tasks s taskId of
                  None \<Rightarrow> s
                | Some finalTask \<Rightarrow> s\<lparr>onDidTaskComplete := onDidTaskComplete s @ [finalTask]\<rparr>)
           else s))"

fun run :: "service \<Rightarrow> event list \<Rightarrow> service" where
  "run s [] = s"
| "run s (e # es) = run (fire e s) es"

text \<open>
  \<^verbatim>\<open>generateUuid\<close> returns identifiers that are new: a sequence of events is admissible
  when the identifiers each \<^verbatim>\<open>executeTask\<close> draws differ from one another and that of
  the task is not in use.
\<close>

fun fresh :: "event \<Rightarrow> service \<Rightarrow> bool" where
  "fresh (ExecuteTask plan context options generateUuid) s =
     (tasks s (generateUuid 0) = None \<and> loops s (generateUuid 0) = None \<and>
      distinct (map generateUuid [0 ..< Suc (length (steps plan))]))"
| "fresh e s = True"

fun admissible :: "service \<Rightarrow> event list \<Rightarrow> bool" where
  "admissible s [] = True"
| "admissible s (e # es) = (fresh e s \<and> admissible (fire e s) es)"

text \<open>The list \<^verbatim>\<open>isCommandAllowed\<close> checks a command against.\<close>

definition effective_allow_list :: "string list option \<Rightarrow> string list" where
  "effective_allow_list given =
     (case given of None \<Rightarrow> defaultAllowed | Some cs \<Rightarrow> if cs = [] then defaultAllowed else cs)"

section \<open>The service seen from one task\<close>

text \<open>
  The definitions of this section serve the proofs. \<open>terminal\<close> names the three final
  statuses. \<open>step_set\<close>, \<open>iter_task\<close> and \<open>settled_task\<close> say what \<^verbatim>\<open>updateStep\<close>,
  one pass from the head of the loop and the settling of a handler make of the task they
  find in the table, \<open>iter_at\<close> and \<open>settled_at\<close> where the loop then stands;
  \<open>built_steps\<close>, \<open>built_task\<close> and \<open>built_frame\<close> are the objects \<^verbatim>\<open>executeTask\<close>
  builds. \<open>wf_at\<close> is the invariant of the table: a suspended loop holds a task of its
  own key, with the steps of the task in the table, whose ids are distinct; the steps
  after the one awaited are pending; and a task whose source is still in the table is not
  terminal while its loop is awaiting. \<open>resting\<close> holds when no loop awaits a handler for
  the task, \<open>listed\<close> when the source of an existing task is in the table.
\<close>

definition terminal :: "AgentTaskStatus \<Rightarrow> bool" where
  "terminal st = (st = Task_Completed \<or> st = Task_Failed \<or> st = Task_Cancelled)"

definition step_set :: "nat \<Rightarrow> step_updates \<Rightarrow> AgentTask \<Rightarrow> AgentTask" where
  "step_set i u task =
     spread_task task
       (no_updates\<lparr>set_steps := Some ((task_steps task)[i := spread_step (task_steps task ! i) u])\<rparr>)"

definition wf_at :: "service \<Rightarrow> string \<Rightarrow> bool" where
  "wf_at s k =
     (case loops s k of
        None \<Rightarrow> True
      | Some f \<Rightarrow>
          task_id (frame_task f) = k \<and>
          (case tasks s k of
             None \<Rightarrow> False
           | Some task \<Rightarrow>
               map step_id (task_steps task) = map step_id (task_steps (frame_task f)) \<and>
               distinct (map step_id (task_steps task)) \<and>
               (case frame_at f of
                  Awaiting i \<Rightarrow>
                    i < length (task_steps task) \<and>
                    (\<forall>j. i < j \<and> j < length (task_steps task) \<longrightarrow>
                       step_status (task_steps task ! j) = Step_Pending) \<and>
                    (k \<in> taskCancellations s \<longrightarrow> \<not> terminal (task_status task))
                | Returned \<Rightarrow> True
                | Notified \<Rightarrow> True)))"

definition iter_task :: "nat \<Rightarrow> bool \<Rightarrow> AgentTask \<Rightarrow> AgentTask" where
  "iter_task i cancelled task =
     (if i < length (task_steps task) then
        (if cancelled then spread_task task (no_updates\<lparr>set_status := Some Task_Cancelled\<rparr>)
         else spread_task (step_set i (no_step_updates\<lparr>set_step_status := Some Step_Running\<rparr>) task)
                (no_updates\<lparr>set_currentStep := Some i\<rparr>))
      else spread_task task (no_updates\<lparr>set_status := Some Task_Completed\<rparr>))"

definition iter_at :: "nat \<Rightarrow> bool \<Rightarrow> AgentTask \<Rightarrow> position" where
  "iter_at i cancelled task =
     (if i < length (task_steps task) \<and> \<not> cancelled then Awaiting i else Returned)"

definition settled_task :: "nat \<Rightarrow> bool \<Rightarrow> string \<Rightarrow> error + step_result \<Rightarrow> bool \<Rightarrow> AgentTask \<Rightarrow> AgentTask" where
  "settled_task i stop name outcome cancelled task =
     (case outcome of
        Inr result \<Rightarrow>
          iter_task (Suc i) cancelled
            (step_set i (no_step_updates\<lparr>set_step_status := Some Step_Completed,
                                         set_step_result := Some result\<rparr>) task)
      | Inl message \<Rightarrow>
          (if stop
           then spread_task
                  (step_set i (no_step_updates\<lparr>set_step_status := Some Step_Failed,
                                               set_step_error := Some message\<rparr>) task)
                  (no_updates\<lparr>set_status := Some Task_Failed,
                              set_error := Some (''Step '' @ name @ '' failed: '' @ message)\<rparr>)
           else iter_task (Suc i) cancelled
                  (step_set i (no_step_updates\<lparr>set_step_status := Some Step_Failed,
                                               set_step_error := Some message\<rparr>) task)))"

definition settled_at :: "nat \<Rightarrow> bool \<Rightarrow> error + step_result \<Rightarrow> bool \<Rightarrow> AgentTask \<Rightarrow> position" where
  "settled_at i stop outcome cancelled task =
     (case outcome of
        Inr result \<Rightarrow> iter_at (Suc i) cancelled task
      | Inl message \<Rightarrow> if stop then Returned else iter_at (Suc i) cancelled task)"

definition built_steps :: "AgentPlan \<Rightarrow> AgentExecutionOptions \<Rightarrow> (nat \<Rightarrow> string) \<Rightarrow> AgentStep list" where
  "built_steps plan options generateUuid =
     map (\<lambda>(index, step).
            \<lparr>step_id = generateUuid (Suc index), step_type = plan_type step,
             step_name = description step, step_status = Step_Pending,
             step_result = None, step_error = None\<rparr>)
         (enumerate 0 (slice0 (steps plan) (case maxSteps options of None \<Rightarrow> 10 | Some n \<Rightarrow> n)))"

definition built_task :: "AgentPlan \<Rightarrow> AgentExecutionOptions \<Rightarrow> (nat \<Rightarrow> string) \<Rightarrow> AgentTask" where
  "built_task plan options generateUuid =
     \<lparr>task_id = generateUuid 0,
      task_name = ''Task: '' @
        (case steps plan of [] \<Rightarrow> ''Unknown'' | p # _ \<Rightarrow> or_else (description p) ''Unknown''),
      task_description = join arrow (map description (steps plan)),
      task_status = Task_Running,
      task_steps = built_steps plan options generateUuid,
      currentStep = Some 0,
      task_error = None\<rparr>"

definition built_frame :: "AgentPlan \<Rightarrow> string \<Rightarrow> AgentExecutionOptions \<Rightarrow> (nat \<Rightarrow> string) \<Rightarrow> frame" where
  "built_frame plan context options generateUuid =
     \<lparr>frame_task = built_task plan options generateUuid, frame_context = context,
      frame_options =
        \<lparr>retry_on_failure = (case retryOnFailure options of None \<Rightarrow> True | Some b \<Rightarrow> b),
         stop_on_error = (case stopOnError options of None \<Rightarrow> True | Some b \<Rightarrow> b),
         dry_run = (case dryRun options of None \<Rightarrow> False | Some b \<Rightarrow> b)\<rparr>,
      frame_at = Awaiting 0\<rparr>"

fun is_settle :: "string \<Rightarrow> event \<Rightarrow> bool" where
  "is_settle t (StepSettles k c) = (k = t)"
| "is_settle t e = False"

definition resting :: "service \<Rightarrow> string \<Rightarrow> bool" where
  "resting s t = (case loops s t of None \<Rightarrow> True | Some f \<Rightarrow> (case frame_at f of Awaiting i \<Rightarrow> False | _ \<Rightarrow> True))"

definition never_pending :: "service \<Rightarrow> bool" where
  "never_pending s = (\<forall>k task. tasks s k = Some task \<longrightarrow> task_status task \<noteq> Task_Pending)"

definition listed :: "service \<Rightarrow> string \<Rightarrow> bool" where
  "listed s t = (tasks s t \<noteq> None \<longrightarrow> t \<in> taskCancellations s)"

section \<open>Inputs used in the examples\<close>

text \<open>
  A process where \<^verbatim>\<open>eval('require')\<close> works and one, outside Node and Electron, where
  it does not; the module before anything is loaded; a stand-in for the digest; the
  empty options object; the regular expressions of a platform asked nothing; a run
  that a cancellation ends and a child that a signal ends; a file that calls
  \<^verbatim>\<open>eval\<close>; a parser that accepts nothing; the identifiers \<^verbatim>\<open>generateUuid\<close> returns;
  two plans, the options left out and \<^verbatim>\<open>stopOnError: false\<close>; collaborators that answer
  and collaborators whose search fails; and the task of the first plan run to its end.
\<close>

definition node_process :: node_env where
  "node_process = \<lparr>eval_require = True, node_or_electron = True\<rparr>"

definition browser_process :: node_env where
  "browser_process = \<lparr>eval_require = False, node_or_electron = False\<rparr>"

definition nothing_loaded :: modules where
  "nothing_loaded =
     \<lparr>nodeRequire = False, promisify = False, exec_spawn = False, fsPromises = False,
      crypto = False, execAsync = False\<rparr>"

definition sample_digest :: "string \<Rightarrow> string" where
  "sample_digest text = ''0000000000000000000000000000000000000000000000000000000000000000''"

definition no_options :: SandboxOptions where
  "no_options =
     \<lparr>timeout = None, maxMemory = None, allowedCommands = None, workingDirectory = None, env = None\<rparr>"

definition unused_regexp :: regexp where
  "unused_regexp source command = Inl (Error ''Invalid regular expression'')"

definition cancelled_run :: vm_world where
  "cancelled_run = \<lparr>vm_createFolder = None, vm_writeFile = None, vm_race = TokenFires, vm_elapsed = 5\<rparr>"

definition killed_child :: test_world where
  "killed_child = \<lparr>t_createFolder = None, t_child = Closes None [] [], t_elapsed = 60000\<rparr>"

definition eval_file :: file_change where
  "eval_file = \<lparr>uri = \<lparr>path = ''/src/a.js'', toString = ''file:///src/a.js''\<rparr>, content = ''x = eval(y)''\<rparr>"

definition sample_uuid :: "nat \<Rightarrow> string" where
  "sample_uuid k = (if k = 0 then ''task'' else if k = 1 then ''step-1'' else if k = 2 then ''step-2'' else ''step-n'')"

definition two_edits :: AgentPlan where
  "two_edits = \<lparr>steps = [\<lparr>plan_type = Edit, description = ''rename the field''\<rparr>,
                        \<lparr>plan_type = Verify, description = ''check the build''\<rparr>]\<rparr>"

definition default_options :: AgentExecutionOptions where
  "default_options = \<lparr>maxSteps = None, retryOnFailure = None, stopOnError = None, dryRun = None\<rparr>"

definition idle :: collaborators where
  "idle = \<lparr>getActiveModel = None, search = (\<lambda>query. Inr []),
           requestCompletion = (\<lambda>prompt. Inl ''No AI model configured''), executeCommand = None\<rparr>"




definition finished_task :: AgentTask where
  "finished_task =
     \<lparr>task_id = ''task'', task_name = ''Task: rename the field'',
      task_description = ''rename the field'' @ arrow @ ''check the build'',
      task_status = Task_Completed,
      task_steps =
        [\<lparr>step_id = ''step-1'', step_type = Edit, step_name = ''rename the field'',
          step_status = Step_Completed, step_result = Some (Edited ''file:///w''), step_error = None\<rparr>,
         \<lparr>step_id = ''step-2'', step_type = Verify, step_name = ''check the build'',
          step_status = Step_Completed, step_result = Some Verified, step_error = None\<rparr>],
      currentStep = Some 1, task_error = None\<rparr>"

definition rejecting_parser :: "string \<Rightarrow> error + unit" where
  "rejecting_parser text = Inl ''SyntaxError: Unexpected token''"

section \<open>Properties of the sandbox\<close>

subsection \<open>The loaders\<close>

lemma getNodeRequire_ok: "eval_require nenv \<Longrightarrow> \<exists>m'. getNodeRequire nenv m = Inr m'"
  by (simp add: getNodeRequire_def)

lemma getCrypto_ok: "eval_require nenv \<Longrightarrow> \<exists>m'. getCrypto nenv m = Inr m'"
  by (simp add: getCrypto_def getNodeRequire_def)

lemma getFsPromises_ok: "eval_require nenv \<Longrightarrow> \<exists>m'. getFsPromises nenv m = Inr m'"
  by (simp add: getFsPromises_def getNodeRequire_def)



lemma generateSandboxId_ok:
  "eval_require nenv \<Longrightarrow> \<exists>m'. generateSandboxId nenv digest c m = (Inr (take 16 (digest c)), m')"
  using getCrypto_ok [of nenv m] by (auto simp: generateSandboxId_def)

lemma generateSandboxId_value:
  "fst (generateSandboxId nenv digest c m) = Inr x \<Longrightarrow> x = take 16 (digest c)"
  by (auto simp: generateSandboxId_def split: sum.splits)

lemma getCrypto_again: "getCrypto nenv m = Inr m' \<Longrightarrow> getCrypto nenv m' = Inr m'"
  by (auto simp: getCrypto_def getNodeRequire_def split: if_splits)

lemma cleanupSandbox_total: "\<exists>fx m'. cleanupSandbox nenv dir m = (fx, m')"
  by (cases "cleanupSandbox nenv dir m") simp

subsection \<open>The allow-list\<close>

lemma startsWith_append: "startsWith (p @ r) p"
  by (simp add: startsWith_def)

lemma some_entry_all_false:
  "(\<And>x. x \<in> set xs \<Longrightarrow> f x = Inr False) \<Longrightarrow> some_entry f xs = Inr False"
  by (induction xs) auto

lemma some_entry_pure:
  "(\<And>x. x \<in> set xs \<Longrightarrow> f x = Inr (g x)) \<Longrightarrow> some_entry f xs = Inr (list_ex g xs)"
  by (induction xs) (auto split: bool.splits)

lemma allowedEntry_default:
  "x \<in> set defaultAllowed \<Longrightarrow> allowedEntry rx c x = Inr (startsWith c x)"
  by (auto simp: defaultAllowed_def allowedEntry_def startsWith_def)

lemma isCommandAllowed_some_entry:
  "isCommandAllowed rx c a = some_entry (allowedEntry rx c) (effective_allow_list a)"
proof -
  have "some_entry (allowedEntry rx c) defaultAllowed = Inr (list_ex (\<lambda>allowed. startsWith c allowed) defaultAllowed)"
    by (rule some_entry_pure) (rule allowedEntry_default)
  then show ?thesis by (auto simp: isCommandAllowed_def effective_allow_list_def split: option.splits)
qed

lemma some_entry_never_true:
  "(\<And>x. x \<in> set xs \<Longrightarrow> f x \<noteq> Inr True) \<Longrightarrow> some_entry f xs \<noteq> Inr True"
proof (induction xs)
  case Nil
  then show ?case by simp
next
  case (Cons a xs)
  have a: "f a \<noteq> Inr True" using Cons.prems by simp
  have r: "some_entry f xs \<noteq> Inr True" using Cons by simp
  show ?case
  proof (cases "f a")
    case (Inl e)
    then show ?thesis by simp
  next
    case (Inr b)
    with a have "b = False" by auto
    with Inr r show ?thesis by simp
  qed
qed

lemma executeTests_not_allowed:
  assumes "getCrypto nenv m = Inr m0"
    and "isCommandAllowed rx testCommand (allowedCommands options) = Inr False"
  shows "executeTests nenv rx digest penv root W testCommand options m =
           (Inr \<lparr>success = False, stdout = [], stderr = ''Command not allowed: '' @ testCommand,
                 exitCode = Num 1, duration = t_elapsed W\<rparr>, [], m0)"
  using assms by (simp add: executeTests_def generateSandboxId_def)

lemma executeTests_nothing_done:
  assumes "isCommandAllowed rx testCommand (allowedCommands options) \<noteq> Inr True"
  shows "fst (snd (executeTests nenv rx digest penv root W testCommand options m)) = []"
proof (cases "getCrypto nenv m")
  case (Inl e)
  then show ?thesis by (simp add: executeTests_def generateSandboxId_def)
next
  case (Inr m0)
  show ?thesis
  proof (cases "isCommandAllowed rx testCommand (allowedCommands options)")
    case (Inl e)
    with Inr show ?thesis by (simp add: executeTests_def generateSandboxId_def)
  next
    case allowed: (Inr b)
    with assms have "b = False" by auto
    with Inr allowed show ?thesis by (simp add: executeTests_def generateSandboxId_def)
  qed
qed

lemma executeTests_no_require:
  assumes "\<not> eval_require nenv" and "\<not> nodeRequire m" and "\<not> crypto m"
  shows "\<exists>failure. getNodeRequire nenv m = Inl failure \<and>
           executeTests nenv rx digest penv root W testCommand options m = (Inl failure, [], m)"
  using assms by (simp add: executeTests_def generateSandboxId_def getCrypto_def getNodeRequire_def)

lemma startsWith_nodemon: "startsWith (''nodemon '' @ anything) ''node''"
  by (simp add: startsWith_def)

text \<open>
  C10. With no \<^verbatim>\<open>allowedCommands\<close>, or an empty list, a command passes the check exactly
  when it starts with one of the seven default prefixes. The test is on the prefix alone,
  so every command that begins with the letters \<^verbatim>\<open>node\<close> passes, \<^verbatim>\<open>nodemon\<close> with any
  arguments among them.
\<close>

theorem default_allow_list:
  "isCommandAllowed rx command None =
     Inr (startsWith command ''npm test'' \<or> startsWith command ''npm run test'' \<or>
          startsWith command ''npx jest'' \<or> startsWith command ''npx mocha'' \<or>
          startsWith command ''npx tsc'' \<or> startsWith command ''node'' \<or>
          startsWith command ''python -m pytest'') \<and>
   isCommandAllowed rx command (Some []) = isCommandAllowed rx command None \<and>
   isCommandAllowed rx (''node'' @ rest) None = Inr True \<and>
   isCommandAllowed rx (''nodemon '' @ anything) None = Inr True"
proof -
  have a: "isCommandAllowed rx c None =
     Inr (startsWith c ''npm test'' \<or> startsWith c ''npm run test'' \<or>
          startsWith c ''npx jest'' \<or> startsWith c ''npx mocha'' \<or>
          startsWith c ''npx tsc'' \<or> startsWith c ''node'' \<or>
          startsWith c ''python -m pytest'')" for c
    by (simp add: isCommandAllowed_def defaultAllowed_def)
  have b: "isCommandAllowed rx command (Some []) = isCommandAllowed rx command None"
    by (simp add: isCommandAllowed_def)
  have c: "startsWith (''node'' @ rest) ''node''" by (rule startsWith_append)
  have d: "startsWith (''nodemon '' @ anything) ''node''" by (rule startsWith_nodemon)
  show ?thesis using a b c d by simp
qed

text \<open>
  C3, as the code has it. When the command matches no entry of the effective allow-list
  (the list given, or the default one when none or an empty one is given),
  \<^verbatim>\<open>executeTests\<close> creates no folder and spawns no process, whatever else it does. An
  entry written between two slashes matches when the regular expression between them
  answers true for the command, any other entry when the command starts with it. Where
  Node's \<^verbatim>\<open>require\<close> is available and every regular expression of the list gives an
  answer, the call returns at once the result with \<^verbatim>\<open>success: false\<close>, the text
  \<^verbatim>\<open>Command not allowed: <command>\<close> and exit code 1. Where \<^verbatim>\<open>require\<close> is not
  available and the module has loaded nothing, the call throws the error of
  \<^verbatim>\<open>getNodeRequire\<close> instead: the sandbox id is computed, with \<^verbatim>\<open>crypto\<close>, before the
  check.
\<close>

theorem disallowed_command_not_spawned:
  assumes "\<forall>allowed \<in> set (effective_allow_list (allowedCommands options)).
           (if startsWith allowed ''/'' \<and> endsWith allowed ''/''
            then rx (take (length allowed - 2) (drop 1 allowed)) testCommand \<noteq> Inr True
            else \<not> startsWith testCommand allowed)"
  shows "fst (snd (executeTests nenv rx digest penv root W testCommand options m)) = [] \<and>
         (eval_require nenv \<and>
          (\<forall>allowed \<in> set (effective_allow_list (allowedCommands options)).
             startsWith allowed ''/'' \<and> endsWith allowed ''/'' \<longrightarrow>
             (\<exists>answer. rx (take (length allowed - 2) (drop 1 allowed)) testCommand = Inr answer)) \<longrightarrow>
          (\<exists>m'. executeTests nenv rx digest penv root W testCommand options m =
             (Inr \<lparr>success = False, stdout = [], stderr = ''Command not allowed: '' @ testCommand,
                   exitCode = Num 1, duration = t_elapsed W\<rparr>, [], m'))) \<and>
         (\<not> eval_require nenv \<and> \<not> nodeRequire m \<and> \<not> crypto m \<longrightarrow>
          (\<exists>failure. getNodeRequire nenv m = Inl failure \<and>
             executeTests nenv rx digest penv root W testCommand options m = (Inl failure, [], m)))"
proof -
  let ?entries = "effective_allow_list (allowedCommands options)"
  have no: "allowedEntry rx testCommand allowed \<noteq> Inr True" if "allowed \<in> set ?entries" for allowed
    using assms that by (auto simp: allowedEntry_def)
  have "some_entry (allowedEntry rx testCommand) ?entries \<noteq> Inr True"
    by (rule some_entry_never_true) (rule no)
  then have "isCommandAllowed rx testCommand (allowedCommands options) \<noteq> Inr True"
    by (simp add: isCommandAllowed_some_entry)
  then have one: "fst (snd (executeTests nenv rx digest penv root W testCommand options m)) = []"
    by (rule executeTests_nothing_done)
  have two: "\<exists>m'. executeTests nenv rx digest penv root W testCommand options m =
             (Inr \<lparr>success = False, stdout = [], stderr = ''Command not allowed: '' @ testCommand,
                   exitCode = Num 1, duration = t_elapsed W\<rparr>, [], m')"
    if r: "eval_require nenv"
      and v: "\<forall>allowed \<in> set ?entries.
             startsWith allowed ''/'' \<and> endsWith allowed ''/'' \<longrightarrow>
             (\<exists>answer. rx (take (length allowed - 2) (drop 1 allowed)) testCommand = Inr answer)"
  proof -
    from r obtain m0 where c: "getCrypto nenv m = Inr m0" using getCrypto_ok by blast
    have "allowedEntry rx testCommand allowed = Inr False" if a: "allowed \<in> set ?entries" for allowed
    proof (cases "startsWith allowed ''/'' \<and> endsWith allowed ''/''")
      case True
      with v a obtain answer where
        "rx (take (length allowed - 2) (drop 1 allowed)) testCommand = Inr answer" by blast
      moreover from assms a True have
        "rx (take (length allowed - 2) (drop 1 allowed)) testCommand \<noteq> Inr True" by auto
      ultimately have "rx (take (length allowed - 2) (drop 1 allowed)) testCommand = Inr False"
        by (cases answer) auto
      with True show ?thesis by (simp add: allowedEntry_def)
    next
      case False
      with assms a have "\<not> startsWith testCommand allowed" by auto
      with False show ?thesis unfolding allowedEntry_def by auto
    qed
    then have "isCommandAllowed rx testCommand (allowedCommands options) = Inr False"
      unfolding isCommandAllowed_some_entry by (rule some_entry_all_false)
    with c show ?thesis using executeTests_not_allowed by blast
  qed
  have three: "\<exists>failure. getNodeRequire nenv m = Inl failure \<and>
             executeTests nenv rx digest penv root W testCommand options m = (Inl failure, [], m)"
    if "\<not> eval_require nenv" "\<not> nodeRequire m" "\<not> crypto m"
    using that by (rule executeTests_no_require)
  from one two three show ?thesis by blast
qed

theorem disallowed_command_not_spawned_witness:
  "fst (snd (executeTests node_process unused_regexp sample_digest Map.empty ''/sandbox'' killed_child
               ''rm -rf /'' no_options nothing_loaded)) = [] \<and>
   (\<exists>m'. executeTests node_process unused_regexp sample_digest Map.empty ''/sandbox'' killed_child
           ''rm -rf /'' no_options nothing_loaded =
           (Inr \<lparr>success = False, stdout = [], stderr = ''Command not allowed: rm -rf /'',
                 exitCode = Num 1, duration = 60000\<rparr>, [], m'))"
proof -
  have r: "eval_require node_process" by (simp add: node_process_def)
  have n: "\<forall>allowed \<in> set (effective_allow_list (allowedCommands no_options)).
           (if startsWith allowed ''/'' \<and> endsWith allowed ''/''
            then unused_regexp (take (length allowed - 2) (drop 1 allowed)) ''rm -rf /'' \<noteq> Inr True
            else \<not> startsWith ''rm -rf /'' allowed)"
    by (simp add: no_options_def effective_allow_list_def defaultAllowed_def startsWith_def endsWith_def)
  have v: "\<forall>allowed \<in> set (effective_allow_list (allowedCommands no_options)).
             startsWith allowed ''/'' \<and> endsWith allowed ''/'' \<longrightarrow>
             (\<exists>answer. unused_regexp (take (length allowed - 2) (drop 1 allowed)) ''rm -rf /'' = Inr answer)"
    by (simp add: no_options_def effective_allow_list_def defaultAllowed_def startsWith_def endsWith_def)
  from disallowed_command_not_spawned [where nenv = node_process and rx = unused_regexp
      and testCommand = "''rm -rf /''" and options = no_options and digest = sample_digest
      and penv = Map.empty and root = "''/sandbox''" and W = killed_child and m = nothing_loaded, OF n]
    r v
  show ?thesis by (simp add: killed_child_def)
qed

text \<open>
  C3 as stated fails: outside Node and Electron the command \<^verbatim>\<open>rm -rf /\<close>, which matches
  none of the default entries, gets no result with \<^verbatim>\<open>success: false\<close>; the call throws.
\<close>

theorem executeTests_throws_without_require:
  "isCommandAllowed unused_regexp ''rm -rf /'' (allowedCommands no_options) = Inr False \<and>
   fst (executeTests browser_process unused_regexp sample_digest Map.empty ''/sandbox'' killed_child
          ''rm -rf /'' no_options nothing_loaded) =
     Inl (Error ''AgentSandbox can only be used in Node.js/Electron contexts. require is not available.'')"
  by (simp add: executeTests_def generateSandboxId_def getCrypto_def getNodeRequire_def
      browser_process_def nothing_loaded_def isCommandAllowed_def no_options_def defaultAllowed_def
      startsWith_def)

text \<open>
  C8. The sandbox id is a function of the content alone: a call that returns an id for a
  content returns the same id when it is repeated in the state the first call left, and
  so does any other call on an equal content, whatever the module has loaded and
  whatever the process. (A call returns no id only where \<^verbatim>\<open>require\<close> is missing.)
\<close>

theorem generateSandboxId_pure:
  assumes "a = b" and "fst (generateSandboxId nenv digest a m) = Inr x"
  shows "fst (generateSandboxId nenv digest b (snd (generateSandboxId nenv digest a m))) = Inr x \<and>
         (\<forall>nenv' m' y. fst (generateSandboxId nenv' digest b m') = Inr y \<longrightarrow> y = x)"
proof (cases "getCrypto nenv m")
  case (Inl e)
  then have "fst (generateSandboxId nenv digest a m) = Inl e"
    by (simp add: generateSandboxId_def)
  with assms(2) show ?thesis by simp
next
  case (Inr m1)
  then have g: "generateSandboxId nenv digest a m = (Inr (take 16 (digest a)), m1)"
    by (simp add: generateSandboxId_def)
  with assms(2) have x: "x = take 16 (digest a)" by simp
  from Inr have "getCrypto nenv m1 = Inr m1" by (rule getCrypto_again)
  then have "generateSandboxId nenv digest b m1 = (Inr (take 16 (digest b)), m1)"
    by (simp add: generateSandboxId_def)
  then have one: "fst (generateSandboxId nenv digest b (snd (generateSandboxId nenv digest a m))) = Inr x"
    using g x assms(1) by simp
  have two: "y = x" if "fst (generateSandboxId nenv' digest b m') = Inr y" for nenv' m' y
    using generateSandboxId_value [OF that] x assms(1) by simp
  from one two show ?thesis by blast
qed

theorem generateSandboxId_pure_witness:
  "fst (generateSandboxId node_process sample_digest ''tests''
          (snd (generateSandboxId node_process sample_digest ''tests'' nothing_loaded))) =
     Inr ''0000000000000000''"
proof -
  have h: "fst (generateSandboxId node_process sample_digest ''tests'' nothing_loaded) = Inr ''0000000000000000''"
    by (simp add: generateSandboxId_def getCrypto_def getNodeRequire_def node_process_def
        nothing_loaded_def sample_digest_def)
  from generateSandboxId_pure [OF refl h] show ?thesis by simp
qed

lemma rx_test_append: "rx_match p s \<Longrightarrow> rx_test p (pre @ s)"
proof (induction pre)
  case Nil
  then show ?case by (cases s) auto
next
  case (Cons a pre)
  then show ?case by simp
qed

lemma eval_pattern_matches: "rx_test (map Lit ''eval'' @ [Ws_star, Lit CHR ''('']) (pre @ ''eval('' @ post)"
  by (rule rx_test_append) simp

lemma eval_pattern_source:
  "pattern_toString (map Lit ''eval'' @ [Ws_star, Lit CHR ''('']) = ''/eval'' @ [CHR 0x5C] @ ''s*'' @ [CHR 0x5C] @ ''(/''"
  by (simp add: pattern_toString_def)

lemma eval_pattern_dangerous: "map Lit ''eval'' @ [Ws_star, Lit CHR ''(''] \<in> set dangerousPatterns"
  by (simp add: dangerousPatterns_def)

lemma scan_patterns_eq:
  "scan_patterns file ps errs =
     errs @ map (dangerous_message file) (filter (\<lambda>p. rx_test p (content file)) ps)"
  by (induction ps arbitrary: errs) auto

lemma scan_files_eq:
  "scan_files fs errs =
     errs @ concat (map (\<lambda>f. map (dangerous_message f) (filter (\<lambda>p. rx_test p (content f)) dangerousPatterns)) fs)"
  by (induction fs arbitrary: errs) (auto simp: scan_patterns_eq)

lemma validateChanges_shape:
  "\<exists>ts. length ts \<le> 1 \<and>
     fst (validateChanges nenv digest penv root W files options m) =
       \<lparr>valid = (scan_files files [] @ ts = []), errors = scan_files files [] @ ts\<rparr>"
proof -
  obtain x fx m' where e: "executeInVM nenv digest penv root W ts_check_script
                       \<lparr>timeout = Some 10000, maxMemory = None, allowedCommands = None,
                        workingDirectory = None, env = None\<rparr> m = (x, fx, m')"
    by (metis prod_cases3)
  show ?thesis
  proof (cases x)
    case (Inl a)
    have "fst (validateChanges nenv digest penv root W files options m) =
       \<lparr>valid = (scan_files files [] @ [] = []), errors = scan_files files [] @ []\<rparr>"
      using e Inl by (simp add: validateChanges_def Let_def)
    then show ?thesis by (metis list.size(3) zero_le)
  next
    case (Inr result)
    have "fst (validateChanges nenv digest penv root W files options m) =
       \<lparr>valid = (scan_files files [] @ [] = []), errors = scan_files files [] @ []\<rparr> \<or>
       fst (validateChanges nenv digest penv root W files options m) =
       \<lparr>valid = (scan_files files [] @ [''TypeScript validation failed: '' @ stderr result] = []),
         errors = scan_files files [] @ [''TypeScript validation failed: '' @ stderr result]\<rparr>"
      using e Inr by (simp add: validateChanges_def Let_def)
    then show ?thesis
    proof
      assume "fst (validateChanges nenv digest penv root W files options m) =
       \<lparr>valid = (scan_files files [] @ [] = []), errors = scan_files files [] @ []\<rparr>"
      then show ?thesis by (metis list.size(3) zero_le)
    next
      assume a: "fst (validateChanges nenv digest penv root W files options m) =
       \<lparr>valid = (scan_files files [] @ [''TypeScript validation failed: '' @ stderr result] = []),
         errors = scan_files files [] @ [''TypeScript validation failed: '' @ stderr result]\<rparr>"
      have "length [''TypeScript validation failed: '' @ stderr result] \<le> 1" by simp
      with a show ?thesis by blast
    qed
  qed
qed

text \<open>
  C7. For every list of files, \<^verbatim>\<open>valid\<close> is true exactly when the list of errors is
  empty; the errors are, file by file and pattern by pattern, one message for each
  dangerous pattern that matches the content of a file, naming the file, followed by at
  most one message of the TypeScript check; in particular a file whose content contains
  \<^verbatim>\<open>eval(\<close> makes the result invalid, with the message of the first pattern for that file
  among the errors.
\<close>

theorem validateChanges_reports_all:
  assumes "r = fst (validateChanges nenv digest penv root W files options m)"
  shows "valid r = (errors r = []) \<and>
         (\<exists>ts. length ts \<le> 1 \<and>
            errors r =
              concat (map (\<lambda>f. map (dangerous_message f)
                                  (filter (\<lambda>p. rx_test p (content f)) dangerousPatterns)) files) @ ts) \<and>
         (\<forall>file \<in> set files. \<forall>pattern \<in> set dangerousPatterns.
            rx_test pattern (content file) \<longrightarrow>
              ''Dangerous pattern detected in '' @ toString (uri file) @ '': '' @ pattern_toString pattern
                \<in> set (errors r)) \<and>
         (\<forall>file \<in> set files. \<forall>pre post.
            content file = pre @ ''eval('' @ post \<longrightarrow>
              \<not> valid r \<and>
              ''Dangerous pattern detected in '' @ toString (uri file) @ '': /eval'' @ [CHR 0x5C] @ ''s*'' @
                [CHR 0x5C] @ ''(/'' \<in> set (errors r))"
proof -
  obtain ts where ts: "length ts \<le> 1"
     "r = \<lparr>valid = (scan_files files [] @ ts = []), errors = scan_files files [] @ ts\<rparr>"
    using validateChanges_shape assms by blast
  have e: "errors r = scan_files files [] @ ts" and v: "valid r = (errors r = [])"
    using ts(2) by simp_all
  have all: "dangerous_message f p \<in> set (errors r)"
    if "f \<in> set files" "p \<in> set dangerousPatterns" "rx_test p (content f)"
    for f p
    using that e by (auto simp: scan_files_eq)
  have ev: "\<not> valid r \<and> dangerous_message f (map Lit ''eval'' @ [Ws_star, Lit CHR ''('']) \<in> set (errors r)"
    if "f \<in> set files" "content f = pre @ ''eval('' @ post" for f pre post
  proof -
    have "rx_test (map Lit ''eval'' @ [Ws_star, Lit CHR ''('']) (content f)"
      unfolding that(2) by (rule eval_pattern_matches)
    then have "dangerous_message f (map Lit ''eval'' @ [Ws_star, Lit CHR ''('']) \<in> set (errors r)"
      using all that(1) eval_pattern_dangerous by blast
    then show ?thesis using v by auto
  qed
  have p2: "\<exists>ts. length ts \<le> 1 \<and>
            errors r =
              concat (map (\<lambda>f. map (dangerous_message f)
                                  (filter (\<lambda>p. rx_test p (content f)) dangerousPatterns)) files) @ ts"
    using ts(1) e by (auto simp: scan_files_eq)
  have p3: "\<forall>file \<in> set files. \<forall>pattern \<in> set dangerousPatterns.
            rx_test pattern (content file) \<longrightarrow>
              ''Dangerous pattern detected in '' @ toString (uri file) @ '': '' @ pattern_toString pattern
                \<in> set (errors r)"
    using all unfolding dangerous_message_def by blast
  have p4: "\<forall>file \<in> set files. \<forall>pre post.
            content file = pre @ ''eval('' @ post \<longrightarrow>
              \<not> valid r \<and>
              ''Dangerous pattern detected in '' @ toString (uri file) @ '': /eval'' @ [CHR 0x5C] @ ''s*'' @
                [CHR 0x5C] @ ''(/'' \<in> set (errors r)"
  proof (intro ballI allI impI)
    fix f pre post
    assume f: "f \<in> set files" "content f = pre @ ''eval('' @ post"
    have "dangerous_message f (map Lit ''eval'' @ [Ws_star, Lit CHR ''('']) =
            ''Dangerous pattern detected in '' @ toString (uri f) @ '': /eval'' @ [CHR 0x5C] @ ''s*'' @
                [CHR 0x5C] @ ''(/''"
      by (simp add: dangerous_message_def pattern_toString_def)
    with ev [OF f] show "\<not> valid r \<and>
              ''Dangerous pattern detected in '' @ toString (uri f) @ '': /eval'' @ [CHR 0x5C] @ ''s*'' @
                [CHR 0x5C] @ ''(/'' \<in> set (errors r)"
      by simp
  qed
  from v p2 p3 p4 show ?thesis by blast
qed

theorem validateChanges_reports_all_witness:
  "\<not> valid (fst (validateChanges node_process sample_digest Map.empty ''/sandbox'' cancelled_run
                   [eval_file] no_options nothing_loaded)) \<and>
   ''Dangerous pattern detected in file:///src/a.js: /eval'' @ [CHR 0x5C] @ ''s*'' @ [CHR 0x5C] @ ''(/''
     \<in> set (errors (fst (validateChanges node_process sample_digest Map.empty ''/sandbox''
                             cancelled_run [eval_file] no_options nothing_loaded)))"
proof -
  have c: "content eval_file = ''x = '' @ ''eval('' @ ''y)''" by (simp add: eval_file_def)
  have u: "toString (uri eval_file) = ''file:///src/a.js''" by (simp add: eval_file_def)
  from validateChanges_reports_all [OF refl, of node_process sample_digest Map.empty "''/sandbox''"
      cancelled_run "[eval_file]" no_options nothing_loaded]
  have "\<forall>file \<in> set [eval_file]. \<forall>pre post.
            content file = pre @ ''eval('' @ post \<longrightarrow>
              \<not> valid (fst (validateChanges node_process sample_digest Map.empty ''/sandbox'' cancelled_run
                   [eval_file] no_options nothing_loaded)) \<and>
              ''Dangerous pattern detected in '' @ toString (uri file) @ '': /eval'' @ [CHR 0x5C] @ ''s*'' @
                [CHR 0x5C] @ ''(/'' \<in> set (errors (fst (validateChanges node_process sample_digest Map.empty
                   ''/sandbox'' cancelled_run [eval_file] no_options nothing_loaded)))"
    by blast
  from this [rule_format, of eval_file "''x = ''" "''y)''", OF _ c] u show ?thesis by simp
qed






























section \<open>Properties of the planner\<close>

lemma upto_last_None: "(upto_last c xs = None) = (c \<notin> set xs)"
  by (induction xs) (auto split: option.splits)

lemma dropWhile_first:
  "t = a @ [lb] @ rest \<Longrightarrow> \<exists>r. dropWhile (\<lambda>x. x \<noteq> lb) t = lb # r \<and> set rest \<subseteq> set r"
proof (induction a arbitrary: t)
  case Nil
  then show ?case by simp
next
  case (Cons x a)
  show ?case
  proof (cases "x = lb")
    case True
    with Cons.prems show ?thesis by auto
  next
    case False
    from Cons.IH [of "a @ [lb] @ rest"] obtain r where
      "dropWhile (\<lambda>x. x \<noteq> lb) (a @ [lb] @ rest) = lb # r \<and> set rest \<subseteq> set r" by blast
    with False Cons.prems show ?thesis by simp
  qed
qed

lemma match_array_None:
  "(match_array planText = None) = (\<not> (\<exists>a b c. planText = a @ ''['' @ b @ '']'' @ c))"
proof
  assume n: "match_array planText = None"
  show "\<not> (\<exists>a b c. planText = a @ ''['' @ b @ '']'' @ c)"
  proof
    assume "\<exists>a b c. planText = a @ ''['' @ b @ '']'' @ c"
    then obtain a b c where "planText = a @ [CHR ''[''] @ (b @ '']'' @ c)" by auto
    from dropWhile_first [OF this] obtain r where
      r: "dropWhile (\<lambda>x. x \<noteq> CHR ''['') planText = CHR ''['' # r" "set (b @ '']'' @ c) \<subseteq> set r"
      by blast
    then have "CHR '']'' \<in> set r" by auto
    then have "upto_last CHR '']'' r \<noteq> None" by (simp add: upto_last_None)
    with r(1) n show False by (auto simp: match_array_def split: option.splits)
  qed
next
  assume n: "\<not> (\<exists>a b c. planText = a @ ''['' @ b @ '']'' @ c)"
  show "match_array planText = None"
  proof (rule ccontr)
    assume m: "match_array planText \<noteq> None"
    obtain x r where d0: "dropWhile (\<lambda>x. x \<noteq> CHR ''['') planText = x # r"
      using m by (cases "dropWhile (\<lambda>x. x \<noteq> CHR ''['') planText") (simp_all add: match_array_def)
    have "\<not> (hd (dropWhile (\<lambda>x. x \<noteq> CHR ''['') planText) \<noteq> CHR ''['')"
      by (rule hd_dropWhile) (simp add: d0)
    with d0 have d: "dropWhile (\<lambda>x. x \<noteq> CHR ''['') planText = CHR ''['' # r" by simp
    have u: "upto_last CHR '']'' r \<noteq> None"
      using m d by (cases "upto_last CHR '']'' r") (simp_all add: match_array_def)
    from u have "CHR '']'' \<in> set r" by (simp add: upto_last_None)
    then obtain b c where bc: "r = b @ CHR '']'' # c" by (meson split_list)
    have "planText = takeWhile (\<lambda>x. x \<noteq> CHR ''['') planText @ dropWhile (\<lambda>x. x \<noteq> CHR ''['') planText"
      by simp
    with d bc have "planText = takeWhile (\<lambda>x. x \<noteq> CHR ''['') planText @ ''['' @ b @ '']'' @ c"
      by simp
    with n show False by blast
  qed
qed

text \<open>
  C1, as the code has it. \<^verbatim>\<open>planTask\<close> throws \<^verbatim>\<open>No AI model configured\<close> when no
  active model is set; when the call of the provider fails it throws that failure again;
  when the text of the response has no opening bracket followed, anywhere later, by a
  closing bracket, it returns the four steps of the fallback plan; and when the bracketed
  text parses, it returns what the parser made of it.
\<close>

theorem planTask_outcomes:
  "planTask JSON_parse None response d = Inl ''No AI model configured'' \<and>
   planTask JSON_parse (Some []) response d = Inl ''No AI model configured'' \<and>
   (activeModelId \<noteq> [] \<longrightarrow> planTask JSON_parse (Some activeModelId) (Inl e) d = Inl e) \<and>
   (activeModelId \<noteq> [] \<and> match_array planText = None \<longrightarrow>
      planTask JSON_parse (Some activeModelId) (Inr planText) d =
        Inr (Steps [\<lparr>plan_type = Search, description = ''Search for files related to: '' @ d\<rparr>,
                    \<lparr>plan_type = Generate, description = ''Generate code for: '' @ d\<rparr>,
                    \<lparr>plan_type = Edit, description = ''Apply changes''\<rparr>,
                    \<lparr>plan_type = Verify, description = ''Verify changes work correctly''\<rparr>])) \<and>
   (activeModelId \<noteq> [] \<and> match_array planText = Some jsonMatch \<and> JSON_parse jsonMatch = Inr v \<longrightarrow>
      planTask JSON_parse (Some activeModelId) (Inr planText) d = Inr (Parsed v)) \<and>
   (match_array planText = None) = (\<not> (\<exists>a b c. planText = a @ ''['' @ b @ '']'' @ c))"
proof (intro conjI impI)
  show "(match_array planText = None) = (\<not> (\<exists>a b c. planText = a @ ''['' @ b @ '']'' @ c))"
    by (rule match_array_None)
qed (simp_all add: planTask_def truthy_def fallback_plan_def)

theorem planTask_outcomes_witness:
  "planTask rejecting_parser (Some ''model-1'') (Inr ''I cannot help with that.'') ''add tests'' =
     Inr (Steps [\<lparr>plan_type = Search, description = ''Search for files related to: add tests''\<rparr>,
                 \<lparr>plan_type = Generate, description = ''Generate code for: add tests''\<rparr>,
                 \<lparr>plan_type = Edit, description = ''Apply changes''\<rparr>,
                 \<lparr>plan_type = Verify, description = ''Verify changes work correctly''\<rparr>]) \<and>
   planTask rejecting_parser (Some ''model-1'') (Inl ''model unavailable'') ''add tests'' = Inl ''model unavailable''"
proof -
  have m: "''model-1'' \<noteq> []" by simp
  have n: "match_array ''I cannot help with that.'' = None" by (simp add: match_array_def)
  from planTask_outcomes [of rejecting_parser "Inl ''model unavailable''" "''add tests''" "''model-1''"
      "''model unavailable''" "''I cannot help with that.''"] m n
  show ?thesis by simp
qed

text \<open>
  C1 as stated fails: when the provider call fails the \<^verbatim>\<open>catch\<close> block logs the error and
  throws it again; no fallback plan is returned.
\<close>

theorem planTask_rethrows_provider_failure:
  "planTask rejecting_parser (Some ''model-1'') (Inl ''model unavailable'') ''add tests'' \<noteq>
     Inr (Steps (fallback_plan ''add tests'')) \<and>
   planTask rejecting_parser (Some ''model-1'') (Inl ''model unavailable'') ''add tests'' =
     Inl ''model unavailable''"
  by (simp add: planTask_def truthy_def)

section \<open>Properties of the executor\<close>

subsection \<open>The updates\<close>

lemma updateTask_other [simp]:
  "loops (updateTask k u s) = loops s"
  "taskCancellations (updateTask k u s) = taskCancellations s"
  "cancelRequested (updateTask k u s) = cancelRequested s"
  by (cases "tasks s k"; simp add: updateTask_def Let_def)+

lemma updateTask_tasks:
  "tasks (updateTask k u s) =
     (case tasks s k of None \<Rightarrow> tasks s | Some task \<Rightarrow> (tasks s)(k \<mapsto> spread_task task u))"
  by (cases "tasks s k"; simp add: updateTask_def Let_def)

lemma updateStep_other [simp]:
  "loops (updateStep k sid u s) = loops s"
  "taskCancellations (updateStep k sid u s) = taskCancellations s"
  "cancelRequested (updateStep k sid u s) = cancelRequested s"
  by (simp_all add: updateStep_def Let_def split: option.splits)

lemma updateStep_tasks:
  "tasks (updateStep k sid u s) =
     (case tasks s k of
        None \<Rightarrow> tasks s
      | Some task \<Rightarrow>
          (case findIndex (\<lambda>st. step_id st = sid) (task_steps task) of
             None \<Rightarrow> tasks s
           | Some i \<Rightarrow> (tasks s)(k \<mapsto> step_set i u task)))"
  by (simp add: updateStep_def Let_def updateTask_tasks step_set_def split: option.splits)

lemma at_other [simp]:
  "tasks (at k p s) = tasks s"
  "taskCancellations (at k p s) = taskCancellations s"
  "cancelRequested (at k p s) = cancelRequested s"
  by (simp_all add: at_def split: option.splits)

lemma at_loops:
  "loops (at k p s) = (case loops s k of None \<Rightarrow> loops s | Some f \<Rightarrow> (loops s)(k \<mapsto> f\<lparr>frame_at := p\<rparr>))"
  by (simp add: at_def split: option.splits)

lemma findIndex_distinct:
  "distinct (map g xs) \<Longrightarrow> i < length xs \<Longrightarrow> findIndex (\<lambda>x. g x = g (xs ! i)) xs = Some i"
proof (induction xs arbitrary: i)
  case Nil
  then show ?case by simp
next
  case (Cons a xs)
  show ?case
  proof (cases i)
    case 0
    then show ?thesis by simp
  next
    case (Suc n)
    with Cons.prems have n: "n < length xs" and d: "distinct (map g xs)" and "g a \<notin> g ` set xs"
      by auto
    then have "g a \<noteq> g (xs ! n)" by force
    with Cons.IH [OF d n] Suc show ?thesis by simp
  qed
qed

lemma spread_step_id [simp]: "step_id (spread_step st u) = step_id st"
  by (simp add: spread_step_def)

lemma step_set_fields [simp]:
  "task_status (step_set i u task) = task_status task"
  "task_id (step_set i u task) = task_id task"
  "task_error (step_set i u task) = task_error task"
  "currentStep (step_set i u task) = currentStep task"
  "task_steps (step_set i u task) = (task_steps task)[i := spread_step (task_steps task ! i) u]"
  by (simp_all add: step_set_def spread_task_def no_updates_def)

lemma step_set_ids [simp]: "map step_id (task_steps (step_set i u task)) = map step_id (task_steps task)"
  by (simp add: map_update) (metis list_update_id map_update)

lemma same_ids_length: "map step_id xs = map step_id ys \<Longrightarrow> length xs = length ys"
  by (rule map_eq_imp_length_eq)

lemma same_ids_nth:
  "map step_id xs = map step_id ys \<Longrightarrow> i < length xs \<Longrightarrow> step_id (ys ! i) = step_id (xs ! i)"
  by (metis length_map nth_map)

lemma updateStep_found:
  assumes "tasks s k = Some task"
    and "map step_id (task_steps task) = map step_id steps0"
    and "distinct (map step_id (task_steps task))"
    and "i < length (task_steps task)"
  shows "tasks (updateStep k (step_id (steps0 ! i)) u s) = (tasks s)(k \<mapsto> step_set i u task)"
proof -
  have "step_id (steps0 ! i) = step_id (task_steps task ! i)"
    using assms(2,4) by (rule same_ids_nth)
  moreover have "findIndex (\<lambda>st. step_id st = step_id (task_steps task ! i)) (task_steps task) = Some i"
    using assms(3,4) by (rule findIndex_distinct)
  ultimately show ?thesis using assms(1) by (simp add: updateStep_tasks)
qed

lemma iteration_other [simp]:
  "taskCancellations (iteration f i s) = taskCancellations s"
  "cancelRequested (iteration f i s) = cancelRequested s"
  by (simp_all add: iteration_def Let_def)

lemma iteration_tasks:
  assumes t: "tasks s k = Some task"
    and fk: "task_id (frame_task f) = k"
    and ids: "map step_id (task_steps task) = map step_id (task_steps (frame_task f))"
    and d: "distinct (map step_id (task_steps task))"
  shows "tasks (iteration f i s) = (tasks s)(k \<mapsto> iter_task i (cancelRequested s k) task)"
proof -
  have len: "length (task_steps (frame_task f)) = length (task_steps task)"
    using ids by (metis length_map)
  show ?thesis
  proof (cases "i < length (task_steps task)")
    case False
    with len t fk show ?thesis
      by (simp add: iteration_def Let_def iter_task_def updateTask_tasks)
  next
    case True
    show ?thesis
    proof (cases "cancelRequested s k")
      case True
      with \<open>i < length (task_steps task)\<close> len t fk show ?thesis
        by (simp add: iteration_def Let_def iter_task_def updateTask_tasks)
    next
      case False
      have "tasks (updateStep k (step_id (task_steps (frame_task f) ! i))
                     (no_step_updates\<lparr>set_step_status := Some Step_Running\<rparr>) s) =
              (tasks s)(k \<mapsto> step_set i (no_step_updates\<lparr>set_step_status := Some Step_Running\<rparr>) task)"
        using t ids d True by (rule updateStep_found)
      with False True len fk show ?thesis
        by (simp add: iteration_def Let_def iter_task_def updateTask_tasks)
    qed
  qed
qed

lemma iteration_loops:
  assumes "loops s k = Some f0"
    and "task_id (frame_task f) = k"
    and "length (task_steps (frame_task f)) = length (task_steps task)"
  shows "loops (iteration f i s) = (loops s)(k \<mapsto> f0\<lparr>frame_at := iter_at i (cancelRequested s k) task\<rparr>)"
  using assms by (simp add: iteration_def Let_def iter_at_def at_loops)

lemma settled_other [simp]:
  "taskCancellations (settled f i outcome s) = taskCancellations s"
  "cancelRequested (settled f i outcome s) = cancelRequested s"
  by (simp_all add: settled_def Let_def split: sum.splits)

lemma update_ids [simp]: "map step_id (xs[i := spread_step (xs ! i) u]) = map step_id xs"
  by (simp add: map_update) (metis list_update_id map_update)

lemma settled_tasks:
  assumes t: "tasks s k = Some task"
    and fk: "task_id (frame_task f) = k"
    and ids: "map step_id (task_steps task) = map step_id (task_steps (frame_task f))"
    and d: "distinct (map step_id (task_steps task))"
    and i: "i < length (task_steps task)"
  shows "tasks (settled f i outcome s) =
           (tasks s)(k \<mapsto> settled_task i (stop_on_error (frame_options f))
                              (step_name (task_steps (frame_task f) ! i)) outcome (cancelRequested s k) task)"
proof (cases outcome)
  case (Inr result)
  let ?u = "no_step_updates\<lparr>set_step_status := Some Step_Completed, set_step_result := Some result\<rparr>"
  let ?s1 = "updateStep k (step_id (task_steps (frame_task f) ! i)) ?u s"
  have s1: "tasks ?s1 = (tasks s)(k \<mapsto> step_set i ?u task)"
    using t ids d i by (rule updateStep_found)
  then have t1: "tasks ?s1 k = Some (step_set i ?u task)" by simp
  have "tasks (iteration f (Suc i) ?s1) =
          (tasks ?s1)(k \<mapsto> iter_task (Suc i) (cancelRequested ?s1 k) (step_set i ?u task))"
    using t1 fk by (rule iteration_tasks) (use ids d in simp_all)
  with s1 Inr fk show ?thesis by (simp add: settled_def Let_def settled_task_def)
next
  case (Inl message)
  let ?u = "no_step_updates\<lparr>set_step_status := Some Step_Failed, set_step_error := Some message\<rparr>"
  let ?s1 = "updateStep k (step_id (task_steps (frame_task f) ! i)) ?u s"
  have s1: "tasks ?s1 = (tasks s)(k \<mapsto> step_set i ?u task)"
    using t ids d i by (rule updateStep_found)
  then have t1: "tasks ?s1 k = Some (step_set i ?u task)" by simp
  show ?thesis
  proof (cases "stop_on_error (frame_options f)")
    case True
    with s1 Inl fk show ?thesis
      by (simp add: settled_def Let_def settled_task_def updateTask_tasks)
  next
    case False
    have "tasks (iteration f (Suc i) ?s1) =
          (tasks ?s1)(k \<mapsto> iter_task (Suc i) (cancelRequested ?s1 k) (step_set i ?u task))"
      using t1 fk by (rule iteration_tasks) (use ids d in simp_all)
    with s1 Inl fk False show ?thesis by (simp add: settled_def Let_def settled_task_def)
  qed
qed

lemma iter_at_step_set [simp]: "iter_at j c (step_set i u task) = iter_at j c task"
  by (simp add: iter_at_def)

lemma settled_loops:
  assumes l: "loops s k = Some f0"
    and fk: "task_id (frame_task f) = k"
    and len: "length (task_steps (frame_task f)) = length (task_steps task)"
  shows "loops (settled f i outcome s) =
           (loops s)(k \<mapsto> f0\<lparr>frame_at := settled_at i (stop_on_error (frame_options f)) outcome
                                              (cancelRequested s k) task\<rparr>)"
proof (cases outcome)
  case (Inr result)
  let ?s1 = "updateStep k (step_id (task_steps (frame_task f) ! i))
               (no_step_updates\<lparr>set_step_status := Some Step_Completed, set_step_result := Some result\<rparr>) s"
  have "loops ?s1 k = Some f0" using l by simp
  from iteration_loops [OF this fk len, of "Suc i"] Inr fk show ?thesis
    by (simp add: settled_def Let_def settled_at_def)
next
  case (Inl message)
  let ?s1 = "updateStep k (step_id (task_steps (frame_task f) ! i))
               (no_step_updates\<lparr>set_step_status := Some Step_Failed, set_step_error := Some message\<rparr>) s"
  have l1: "loops ?s1 k = Some f0" using l by simp
  show ?thesis
  proof (cases "stop_on_error (frame_options f)")
    case True
    with Inl fk l show ?thesis by (simp add: settled_def Let_def settled_at_def at_loops)
  next
    case False
    from iteration_loops [OF l1 fk len, of "Suc i"] Inl fk False show ?thesis
      by (simp add: settled_def Let_def settled_at_def)
  qed
qed

text \<open>What a well-formed key gives.\<close>

lemma wf_atD:
  assumes "wf_at s k" and "loops s k = Some f"
  shows "\<exists>task. task_id (frame_task f) = k \<and> tasks s k = Some task \<and>
     map step_id (task_steps task) = map step_id (task_steps (frame_task f)) \<and>
     distinct (map step_id (task_steps task)) \<and>
     (\<forall>i. frame_at f = Awaiting i \<longrightarrow>
        i < length (task_steps task) \<and>
        (\<forall>j. i < j \<and> j < length (task_steps task) \<longrightarrow> step_status (task_steps task ! j) = Step_Pending) \<and>
        (k \<in> taskCancellations s \<longrightarrow> \<not> terminal (task_status task)))"
proof -
  from assms have a: "task_id (frame_task f) = k" by (simp add: wf_at_def)
  from assms obtain task where t: "tasks s k = Some task"
    by (cases "tasks s k") (simp_all add: wf_at_def)
  from assms t have bc: "map step_id (task_steps task) = map step_id (task_steps (frame_task f)) \<and>
      distinct (map step_id (task_steps task))"
    unfolding wf_at_def by (cases "tasks s k") auto
  then have b: "map step_id (task_steps task) = map step_id (task_steps (frame_task f))"
    and c: "distinct (map step_id (task_steps task))"
    by blast+
  have d: "i < length (task_steps task) \<and>
           (\<forall>j. i < j \<and> j < length (task_steps task) \<longrightarrow> step_status (task_steps task ! j) = Step_Pending) \<and>
           (k \<in> taskCancellations s \<longrightarrow> \<not> terminal (task_status task))"
    if "frame_at f = Awaiting i" for i
    using assms t that by (simp add: wf_at_def)
  from a t b c d show ?thesis by blast
qed

lemma fire_settles_tasks:
  assumes "wf_at s k" and "loops s k = Some f" and "frame_at f = Awaiting i" and "tasks s k = Some task"
  shows "tasks (fire (StepSettles k c) s) =
           (tasks s)(k \<mapsto> settled_task i (stop_on_error (frame_options f))
              (step_name (task_steps (frame_task f) ! i))
              (executeStep c (task_steps (frame_task f) ! i) (frame_context f) (frame_options f))
              (cancelRequested s k) task)"
proof -
  from wf_atD [OF assms(1,2)] obtain task' where w: "task_id (frame_task f) = k" "tasks s k = Some task'"
    "map step_id (task_steps task') = map step_id (task_steps (frame_task f))"
    "distinct (map step_id (task_steps task'))"
    "\<And>i. frame_at f = Awaiting i \<Longrightarrow> i < length (task_steps task')"
    by blast
  from w(2) assms(4) have e: "task' = task" by simp
  from w(5) [OF assms(3)] e have i: "i < length (task_steps task)" by simp
  from settled_tasks [OF assms(4) w(1) w(3) [unfolded e] w(4) [unfolded e] i] assms(2,3)
  show ?thesis by simp
qed

lemma fire_settles_loops:
  assumes "wf_at s k" and "loops s k = Some f" and "frame_at f = Awaiting i" and "tasks s k = Some task"
  shows "loops (fire (StepSettles k c) s) =
           (loops s)(k \<mapsto> f\<lparr>frame_at := settled_at i (stop_on_error (frame_options f))
              (executeStep c (task_steps (frame_task f) ! i) (frame_context f) (frame_options f))
              (cancelRequested s k) task\<rparr>)"
proof -
  from wf_atD [OF assms(1,2)] obtain task' where w: "task_id (frame_task f) = k" "tasks s k = Some task'"
    "map step_id (task_steps task') = map step_id (task_steps (frame_task f))"
    by blast
  from w(2) assms(4) have e: "task' = task" by simp
  from w(3) e have len: "length (task_steps (frame_task f)) = length (task_steps task)"
    by (metis length_map)
  from settled_loops [OF assms(2) w(1) len] assms(2,3) show ?thesis by simp
qed

lemma fire_settles_idle:
  assumes "loops s k = None \<or> (\<exists>f. loops s k = Some f \<and> frame_at f \<noteq> Awaiting i \<and> (\<forall>j. frame_at f \<noteq> Awaiting j))"
  shows "fire (StepSettles k c) s = s"
  using assms by (auto split: option.splits position.splits)

lemma fire_settles_other [simp]:
  "taskCancellations (fire (StepSettles k c) s) = taskCancellations s"
  "cancelRequested (fire (StepSettles k c) s) = cancelRequested s"
  by (simp_all split: option.splits position.splits)

declare fire.simps [simp del]

lemma spread_task_fields [simp]:
  "task_id (spread_task task u) = task_id task"
  "task_status (spread_task task u) = (case set_status u of None \<Rightarrow> task_status task | Some v \<Rightarrow> v)"
  "task_steps (spread_task task u) = (case set_steps u of None \<Rightarrow> task_steps task | Some v \<Rightarrow> v)"
  "task_error (spread_task task u) = (case set_error u of None \<Rightarrow> task_error task | Some v \<Rightarrow> Some v)"
  by (simp_all add: spread_task_def)

lemma no_updates_fields [simp]:
  "set_status no_updates = None" "set_error no_updates = None"
  "set_currentStep no_updates = None" "set_steps no_updates = None"
  by (simp_all add: no_updates_def)

lemma iter_task_steps:
  "task_steps (iter_task i c task) =
     (if i < length (task_steps task) \<and> \<not> c
      then (task_steps task)[i := spread_step (task_steps task ! i)
                                   (no_step_updates\<lparr>set_step_status := Some Step_Running\<rparr>)]
      else task_steps task)"
  by (simp add: iter_task_def)

lemma iter_task_status:
  "task_status (iter_task i c task) =
     (if i < length (task_steps task) then (if c then Task_Cancelled else task_status task)
      else Task_Completed)"
  by (simp add: iter_task_def)

lemma iter_task_ids [simp]: "map step_id (task_steps (iter_task i c task)) = map step_id (task_steps task)"
  by (simp add: iter_task_steps)

lemma iter_task_length [simp]: "length (task_steps (iter_task i c task)) = length (task_steps task)"
  by (simp add: iter_task_steps)

lemma iter_task_nth: "j \<noteq> i \<Longrightarrow> task_steps (iter_task i c task) ! j = task_steps task ! j"
  by (simp add: iter_task_steps)

lemma settled_task_ids [simp]:
  "map step_id (task_steps (settled_task i stop name outcome c task)) = map step_id (task_steps task)"
  by (cases outcome) (simp_all add: settled_task_def)

lemma settled_task_length [simp]:
  "length (task_steps (settled_task i stop name outcome c task)) = length (task_steps task)"
  by (cases outcome) (simp_all add: settled_task_def)

lemma settled_task_nth:
  "j \<noteq> i \<Longrightarrow> j \<noteq> Suc i \<Longrightarrow> task_steps (settled_task i stop name outcome c task) ! j = task_steps task ! j"
  by (cases outcome) (simp_all add: settled_task_def iter_task_nth)

lemma settled_task_status:
  "task_status (settled_task i stop name outcome c task) =
     (case outcome of
        Inl message \<Rightarrow>
          if stop then Task_Failed
          else if Suc i < length (task_steps task) then (if c then Task_Cancelled else task_status task)
          else Task_Completed
      | Inr result \<Rightarrow>
          if Suc i < length (task_steps task) then (if c then Task_Cancelled else task_status task)
          else Task_Completed)"
  by (cases outcome) (simp_all add: settled_task_def iter_task_status)

lemma settled_at_cases:
  "settled_at i stop outcome c task = Awaiting j \<Longrightarrow>
     j = Suc i \<and> Suc i < length (task_steps task) \<and> \<not> c \<and> (stop \<longrightarrow> (\<exists>r. outcome = Inr r))"
  by (cases outcome) (auto simp: settled_at_def iter_at_def split: if_splits)

lemma settled_at_value:
  "settled_at i stop outcome c task =
     (if (stop \<and> (\<exists>m. outcome = Inl m)) \<or> c \<or> \<not> Suc i < length (task_steps task) then Returned
      else Awaiting (Suc i))"
  by (cases outcome) (auto simp: settled_at_def iter_at_def)

text \<open>Well-formedness is kept by a settling handler.\<close>

lemma wf_settles_same:
  assumes "wf_at s k"
  shows "wf_at (fire (StepSettles k c) s) k"
proof (cases "loops s k")
  case None
  then have "fire (StepSettles k c) s = s" by (simp add: fire.simps)
  with assms show ?thesis by simp
next
  case (Some f)
  from wf_atD [OF assms Some] obtain task where w: "task_id (frame_task f) = k" "tasks s k = Some task"
    "map step_id (task_steps task) = map step_id (task_steps (frame_task f))"
    "distinct (map step_id (task_steps task))"
    and aw: "\<And>i. frame_at f = Awaiting i \<Longrightarrow>
        i < length (task_steps task) \<and>
        (\<forall>j. i < j \<and> j < length (task_steps task) \<longrightarrow> step_status (task_steps task ! j) = Step_Pending) \<and>
        (k \<in> taskCancellations s \<longrightarrow> \<not> terminal (task_status task))"
    by blast
  show ?thesis
  proof (cases "frame_at f")
    case Returned
    with Some have "fire (StepSettles k c) s = s" by (simp add: fire.simps)
    with assms show ?thesis by simp
  next
    case Notified
    with Some have "fire (StepSettles k c) s = s" by (simp add: fire.simps)
    with assms show ?thesis by simp
  next
    case (Awaiting i)
    let ?o = "executeStep c (task_steps (frame_task f) ! i) (frame_context f) (frame_options f)"
    let ?stop = "stop_on_error (frame_options f)"
    let ?task' = "settled_task i ?stop (step_name (task_steps (frame_task f) ! i)) ?o (cancelRequested s k) task"
    let ?p = "settled_at i ?stop ?o (cancelRequested s k) task"
    let ?s' = "fire (StepSettles k c) s"
    have T: "tasks ?s' k = Some ?task'"
      using fire_settles_tasks [OF assms Some Awaiting w(2)] by simp
    have L: "loops ?s' k = Some (f\<lparr>frame_at := ?p\<rparr>)"
      using fire_settles_loops [OF assms Some Awaiting w(2)] by simp
    have C: "taskCancellations ?s' = taskCancellations s" by simp
    from aw [OF Awaiting] have i: "i < length (task_steps task)"
      and pend: "\<And>j. i < j \<Longrightarrow> j < length (task_steps task) \<Longrightarrow> step_status (task_steps task ! j) = Step_Pending"
      and nt: "k \<in> taskCancellations s \<Longrightarrow> \<not> terminal (task_status task)"
      by blast+
    have ids: "map step_id (task_steps ?task') = map step_id (task_steps (frame_task f))"
      using w(3) by simp
    have dist: "distinct (map step_id (task_steps ?task'))"
      using w(4) by simp
    have pos: "case ?p of
                 Awaiting i' \<Rightarrow>
                    i' < length (task_steps ?task') \<and>
                    (\<forall>j. i' < j \<and> j < length (task_steps ?task') \<longrightarrow>
                       step_status (task_steps ?task' ! j) = Step_Pending) \<and>
                    (k \<in> taskCancellations ?s' \<longrightarrow> \<not> terminal (task_status ?task'))
                | Returned \<Rightarrow> True
                | Notified \<Rightarrow> True"
    proof (cases ?p)
      case (Awaiting i')
      from settled_at_cases [OF this] have i': "i' = Suc i" and lt: "Suc i < length (task_steps task)"
        and nc: "\<not> cancelRequested s k" and st: "?stop \<longrightarrow> (\<exists>r. ?o = Inr r)"
        by blast+
      have a: "i' < length (task_steps ?task')" using i' lt by simp
      have b: "step_status (task_steps ?task' ! j) = Step_Pending"
        if "i' < j" "j < length (task_steps ?task')" for j
      proof -
        from that i' have "j \<noteq> i" "j \<noteq> Suc i" "i < j" "j < length (task_steps task)" by simp_all
        with settled_task_nth [of j i] pend show ?thesis by simp
      qed
      have c: "task_status ?task' = task_status task"
        using lt nc st by (cases ?o) (auto simp: settled_task_status)
      from a b c nt C Awaiting show ?thesis by simp
    qed simp_all
    from T L w(1) ids dist pos show ?thesis
      unfolding wf_at_def by simp
  qed
qed

lemma wf_at_same:
  assumes "tasks s' k = tasks s k" and "loops s' k = loops s k"
    and "(k \<in> taskCancellations s') = (k \<in> taskCancellations s)"
  shows "wf_at s' k = wf_at s k"
  unfolding wf_at_def using assms by (simp split: option.splits position.splits)

lemma updateTask_isolated: "k \<noteq> k' \<Longrightarrow> tasks (updateTask k' u s) k = tasks s k"
  by (simp add: updateTask_tasks split: option.splits)

lemma updateStep_isolated: "k \<noteq> k' \<Longrightarrow> tasks (updateStep k' sid u s) k = tasks s k"
  by (simp add: updateStep_tasks split: option.splits)

lemma at_isolated: "k \<noteq> k' \<Longrightarrow> loops (at k' p s) k = loops s k"
  by (simp add: at_loops split: option.splits)

lemma iteration_isolated:
  assumes "k \<noteq> task_id (frame_task f)"
  shows "tasks (iteration f i s) k = tasks s k" and "loops (iteration f i s) k = loops s k"
  using assms by (simp_all add: iteration_def Let_def updateTask_isolated updateStep_isolated at_isolated)

lemma settled_isolated:
  assumes "k \<noteq> task_id (frame_task f)"
  shows "tasks (settled f i outcome s) k = tasks s k" and "loops (settled f i outcome s) k = loops s k"
  using assms
  by (cases outcome; simp add: settled_def Let_def iteration_isolated updateTask_isolated
        updateStep_isolated at_isolated)+

lemma fire_settles_isolated:
  assumes "wf_at s kt" and "k \<noteq> kt"
  shows "tasks (fire (StepSettles kt c) s) k = tasks s k"
    and "loops (fire (StepSettles kt c) s) k = loops s k"
proof -
  have "tasks (fire (StepSettles kt c) s) k = tasks s k \<and> loops (fire (StepSettles kt c) s) k = loops s k"
  proof (cases "loops s kt")
    case None
    then show ?thesis by (simp add: fire.simps)
  next
    case (Some f)
    from wf_atD [OF assms(1) Some] have fk: "task_id (frame_task f) = kt" by blast
    show ?thesis
    proof (cases "frame_at f")
      case (Awaiting i)
      from fk assms(2) have "k \<noteq> task_id (frame_task f)" by simp
      from settled_isolated [OF this] Some Awaiting show ?thesis by (simp add: fire.simps)
    qed (simp_all add: Some fire.simps)
  qed
  then show "tasks (fire (StepSettles kt c) s) k = tasks s k"
    and "loops (fire (StepSettles kt c) s) k = loops s k" by simp_all
qed

subsection \<open>Cancelling, the callback and the outer token\<close>

lemma cancelTask_tasks:
  "tasks (cancelTask kt s) =
     (if kt \<in> taskCancellations s
      then (case tasks s kt of None \<Rightarrow> tasks s
            | Some task \<Rightarrow> (tasks s)(kt \<mapsto> spread_task task (no_updates\<lparr>set_status := Some Task_Cancelled\<rparr>)))
      else tasks s)"
  by (cases "tasks s kt") (simp_all add: cancelTask_def Let_def updateTask_tasks)

lemma cancelTask_other [simp]:
  "loops (cancelTask kt s) = loops s"
  "taskCancellations (cancelTask kt s) = taskCancellations s - {kt}"
  "cancelRequested (cancelTask kt s) =
     (if kt \<in> taskCancellations s then (cancelRequested s)(kt := True) else cancelRequested s)"
  by (auto simp: cancelTask_def Let_def)

lemma fire_then [simp]:
  "tasks (fire (ThenRuns kt) s) = tasks s"
  "taskCancellations (fire (ThenRuns kt) s) = taskCancellations s"
  "cancelRequested (fire (ThenRuns kt) s) = cancelRequested s"
  by (simp_all add: fire.simps split: option.splits)

lemma fire_then_loops:
  "loops (fire (ThenRuns kt) s) =
     (case loops s kt of
        None \<Rightarrow> loops s
      | Some f \<Rightarrow> if frame_at f = Returned then (loops s)(kt \<mapsto> f\<lparr>frame_at := Notified\<rparr>) else loops s)"
  by (simp add: fire.simps at_loops split: option.splits)

lemma fire_token [simp]:
  "tasks (fire (OuterTokenCancelled kt) s) = tasks s"
  "loops (fire (OuterTokenCancelled kt) s) = loops s"
  "taskCancellations (fire (OuterTokenCancelled kt) s) = taskCancellations s"
  "cancelRequested (fire (OuterTokenCancelled kt) s) = (cancelRequested s)(kt := True)"
  by (simp_all add: fire.simps)

lemma fire_cancel [simp]: "fire (CancelTask kt) s = cancelTask kt s"
  by (simp add: fire.simps)

lemma wf_cancel: "wf_at s k \<Longrightarrow> wf_at (cancelTask kt s) k"
  unfolding wf_at_def
  by (cases "tasks s kt")
     (auto simp: cancelTask_tasks split: option.splits position.splits)

lemma wf_then: "wf_at s k \<Longrightarrow> wf_at (fire (ThenRuns kt) s) k"
  unfolding wf_at_def
  by (auto simp: fire_then_loops split: option.splits position.splits if_splits)

lemma wf_token: "wf_at s k \<Longrightarrow> wf_at (fire (OuterTokenCancelled kt) s) k"
  using wf_at_same [of "fire (OuterTokenCancelled kt) s" k s] by simp

lemma executeTask_eq:
  "executeTask plan context options uuid s =
     (built_task plan options uuid,
      iteration (built_frame plan context options uuid) 0
        (s\<lparr>cancelRequested := (cancelRequested s)(uuid 0 := False),
           taskCancellations := insert (uuid 0) (taskCancellations s),
           tasks := (tasks s)(uuid 0 \<mapsto> built_task plan options uuid),
           onDidTaskUpdate := onDidTaskUpdate s @ [built_task plan options uuid],
           loops := (loops s)(uuid 0 \<mapsto> built_frame plan context options uuid)\<rparr>))"
  by (simp add: executeTask_def built_task_def built_frame_def built_steps_def Let_def)

lemma take_length_le: "length (take k xs) \<le> length xs"
  by simp

lemma slice0_length: "length (slice0 xs n) \<le> length xs"
  unfolding slice0_def by (cases "n < 0") (simp_all only: if_True if_False take_length_le)

lemma built_steps_length: "length (built_steps plan options uuid) \<le> length (steps plan)"
  by (simp add: built_steps_def slice0_length)

lemma built_steps_ids:
  "map step_id (built_steps plan options uuid) =
     map (\<lambda>j. uuid (Suc j)) [0 ..< length (built_steps plan options uuid)]"
  by (rule nth_equalityI) (simp_all add: built_steps_def nth_enumerate_eq)

lemma built_steps_pending:
  "j < length (built_steps plan options uuid) \<Longrightarrow>
     step_status (built_steps plan options uuid ! j) = Step_Pending"
  by (simp add: built_steps_def nth_enumerate_eq)

lemma built_steps_distinct:
  assumes "distinct (map uuid [0 ..< Suc (length (steps plan))])"
  shows "distinct (map step_id (built_steps plan options uuid))"
proof -
  let ?n = "length (built_steps plan options uuid)"
  from assms have inj: "inj_on uuid (set [0 ..< Suc (length (steps plan))])"
    by (simp add: distinct_map)
  have "inj_on Suc (set [0 ..< ?n])" by simp
  have sub: "Suc ` set [0 ..< ?n] \<subseteq> set [0 ..< Suc (length (steps plan))]"
    using built_steps_length [of plan options uuid] by auto
  have "inj_on (\<lambda>j. uuid (Suc j)) (set [0 ..< ?n])"
    by (rule inj_onI) (metis (no_types, lifting) inj inj_onD sub image_subset_iff nat.inject)
  then have "distinct (map (\<lambda>j. uuid (Suc j)) [0 ..< ?n])"
    by (simp add: distinct_map)
  then show ?thesis by (simp add: built_steps_ids [symmetric])
qed

lemma built_task_fields [simp]:
  "task_id (built_task plan options uuid) = uuid 0"
  "task_status (built_task plan options uuid) = Task_Running"
  "task_steps (built_task plan options uuid) = built_steps plan options uuid"
  "task_error (built_task plan options uuid) = None"
  by (simp_all add: built_task_def)

lemma built_frame_fields [simp]:
  "frame_task (built_frame plan context options uuid) = built_task plan options uuid"
  "frame_context (built_frame plan context options uuid) = context"
  "frame_at (built_frame plan context options uuid) = Awaiting 0"
  "stop_on_error (frame_options (built_frame plan context options uuid)) =
     (case stopOnError options of None \<Rightarrow> True | Some b \<Rightarrow> b)"
  "dry_run (frame_options (built_frame plan context options uuid)) =
     (case dryRun options of None \<Rightarrow> False | Some b \<Rightarrow> b)"
  by (simp_all add: built_frame_def)

lemma fire_execute_other [simp]:
  "taskCancellations (fire (ExecuteTask plan context options uuid) s) = insert (uuid 0) (taskCancellations s)"
  "cancelRequested (fire (ExecuteTask plan context options uuid) s) = (cancelRequested s)(uuid 0 := False)"
  by (simp_all add: fire.simps executeTask_eq)

lemma fire_execute_isolated:
  assumes "k \<noteq> uuid 0"
  shows "tasks (fire (ExecuteTask plan context options uuid) s) k = tasks s k"
    and "loops (fire (ExecuteTask plan context options uuid) s) k = loops s k"
  using assms by (simp_all add: fire.simps executeTask_eq iteration_isolated)

lemma fire_execute_tasks:
  assumes "distinct (map uuid [0 ..< Suc (length (steps plan))])"
  shows "tasks (fire (ExecuteTask plan context options uuid) s) =
           (tasks s)(uuid 0 \<mapsto> iter_task 0 False (built_task plan options uuid))"
proof -
  let ?s2 = "s\<lparr>cancelRequested := (cancelRequested s)(uuid 0 := False),
           taskCancellations := insert (uuid 0) (taskCancellations s),
           tasks := (tasks s)(uuid 0 \<mapsto> built_task plan options uuid),
           onDidTaskUpdate := onDidTaskUpdate s @ [built_task plan options uuid],
           loops := (loops s)(uuid 0 \<mapsto> built_frame plan context options uuid)\<rparr>"
  have t: "tasks ?s2 (uuid 0) = Some (built_task plan options uuid)" by simp
  have "tasks (iteration (built_frame plan context options uuid) 0 ?s2) =
          (tasks ?s2)(uuid 0 \<mapsto> iter_task 0 (cancelRequested ?s2 (uuid 0)) (built_task plan options uuid))"
    using t by (rule iteration_tasks) (simp_all add: built_steps_distinct [OF assms])
  then show ?thesis by (simp add: fire.simps executeTask_eq)
qed

lemma fire_execute_loops:
  "loops (fire (ExecuteTask plan context options uuid) s) =
     (loops s)(uuid 0 \<mapsto> (built_frame plan context options uuid)
                 \<lparr>frame_at := iter_at 0 False (built_task plan options uuid)\<rparr>)"
proof -
  let ?s2 = "s\<lparr>cancelRequested := (cancelRequested s)(uuid 0 := False),
           taskCancellations := insert (uuid 0) (taskCancellations s),
           tasks := (tasks s)(uuid 0 \<mapsto> built_task plan options uuid),
           onDidTaskUpdate := onDidTaskUpdate s @ [built_task plan options uuid],
           loops := (loops s)(uuid 0 \<mapsto> built_frame plan context options uuid)\<rparr>"
  have l: "loops ?s2 (uuid 0) = Some (built_frame plan context options uuid)" by simp
  have "loops (iteration (built_frame plan context options uuid) 0 ?s2) =
          (loops ?s2)(uuid 0 \<mapsto> (built_frame plan context options uuid)
             \<lparr>frame_at := iter_at 0 (cancelRequested ?s2 (uuid 0)) (built_task plan options uuid)\<rparr>)"
    using l by (rule iteration_loops) simp_all
  then show ?thesis by (simp add: fire.simps executeTask_eq)
qed

lemma wf_execute_same:
  assumes "distinct (map uuid [0 ..< Suc (length (steps plan))])"
  shows "wf_at (fire (ExecuteTask plan context options uuid) s) (uuid 0)"
proof -
  let ?task = "built_task plan options uuid"
  let ?s' = "fire (ExecuteTask plan context options uuid) s"
  have T: "tasks ?s' (uuid 0) = Some (iter_task 0 False ?task)"
    by (simp add: fire_execute_tasks [OF assms])
  have L: "loops ?s' (uuid 0) = Some ((built_frame plan context options uuid)\<lparr>frame_at := iter_at 0 False ?task\<rparr>)"
    by (simp add: fire_execute_loops)
  have d: "distinct (map step_id (task_steps (iter_task 0 False ?task)))"
    by (simp add: built_steps_distinct [OF assms])
  have pos: "case iter_at 0 False ?task of
               Awaiting i \<Rightarrow>
                 i < length (task_steps (iter_task 0 False ?task)) \<and>
                 (\<forall>j. i < j \<and> j < length (task_steps (iter_task 0 False ?task)) \<longrightarrow>
                    step_status (task_steps (iter_task 0 False ?task) ! j) = Step_Pending) \<and>
                 (uuid 0 \<in> taskCancellations ?s' \<longrightarrow> \<not> terminal (task_status (iter_task 0 False ?task)))
             | Returned \<Rightarrow> True
             | Notified \<Rightarrow> True"
  proof (cases "0 < length (built_steps plan options uuid)")
    case True
    then have "iter_at 0 False ?task = Awaiting 0" by (simp add: iter_at_def)
    moreover have "step_status (task_steps (iter_task 0 False ?task) ! j) = Step_Pending"
      if "0 < j" "j < length (built_steps plan options uuid)" for j
      using that by (simp add: iter_task_nth built_steps_pending)
    moreover have "\<not> terminal (task_status (iter_task 0 False ?task))"
      using True by (simp add: iter_task_status terminal_def)
    ultimately show ?thesis using True by simp
  next
    case False
    then have "iter_at 0 False ?task = Returned" by (simp add: iter_at_def)
    then show ?thesis by simp
  qed
  from T L d pos show ?thesis unfolding wf_at_def by simp
qed

lemma wf_init: "wf_at init k"
  by (simp add: wf_at_def init_def)

lemma wf_fire:
  assumes wf: "\<And>k. wf_at s k" and fr: "fresh e s"
  shows "wf_at (fire e s) k"
proof (cases e)
  case (ExecuteTask plan ctx options uuid)
  from fr ExecuteTask have d: "distinct (map uuid [0 ..< Suc (length (steps plan))])" by simp
  show ?thesis
  proof (cases "k = uuid 0")
    case True
    with wf_execute_same [OF d] ExecuteTask show ?thesis by simp
  next
    case False
    have "wf_at (fire (ExecuteTask plan ctx options uuid) s) k = wf_at s k"
      using False by (intro wf_at_same) (simp_all add: fire_execute_isolated)
    with wf ExecuteTask show ?thesis by simp
  qed
next
  case (CancelTask kt)
  with wf_cancel [OF wf] show ?thesis by simp
next
  case (OuterTokenCancelled kt)
  with wf_token [OF wf] show ?thesis by simp
next
  case (StepSettles kt c)
  show ?thesis
  proof (cases "k = kt")
    case True
    with wf_settles_same [OF wf] StepSettles show ?thesis by simp
  next
    case False
    have "wf_at (fire (StepSettles kt c) s) k = wf_at s k"
      using False wf by (intro wf_at_same) (simp_all add: fire_settles_isolated)
    with wf StepSettles show ?thesis by simp
  qed
next
  case (ThenRuns kt)
  with wf_then [OF wf] show ?thesis by simp
qed

lemma wf_run: "(\<And>k. wf_at s k) \<Longrightarrow> admissible s es \<Longrightarrow> wf_at (run s es) k"
proof (induction es arbitrary: s)
  case Nil
  then show ?case by simp
next
  case (Cons e es)
  from Cons.prems have "\<And>k. wf_at (fire e s) k" by (simp add: wf_fire)
  with Cons.IH [of "fire e s"] Cons.prems(2) show ?case by simp
qed

lemma wf_reachable: "admissible init es \<Longrightarrow> wf_at (run init es) k"
  by (rule wf_run) (simp_all add: wf_init)

lemma run_append: "run s (es1 @ es2) = run (run s es1) es2"
  by (induction es1 arbitrary: s) simp_all

lemma admissible_append: "admissible s (es1 @ es2) = (admissible s es1 \<and> admissible (run s es1) es2)"
  by (induction es1 arbitrary: s) auto

text \<open>An event that is about another task, or that only runs the callback, leaves a task as it is.\<close>

lemma unaffected:
  assumes wf: "\<And>k. wf_at s k" and fr: "fresh e s" and t: "tasks s t = Some task"
    and ns: "\<not> is_settle t e" and nc: "e \<noteq> CancelTask t" and no: "e \<noteq> OuterTokenCancelled t"
  shows "tasks (fire e s) t = Some task"
    and "cancelRequested (fire e s) t = cancelRequested s t"
    and "(t \<in> taskCancellations (fire e s)) = (t \<in> taskCancellations s)"
    and "loops (fire e s) t = loops s t \<or>
         (\<exists>f. loops s t = Some f \<and> frame_at f = Returned \<and> loops (fire e s) t = Some (f\<lparr>frame_at := Notified\<rparr>))"
proof -
  have "tasks (fire e s) t = Some task \<and>
        cancelRequested (fire e s) t = cancelRequested s t \<and>
        (t \<in> taskCancellations (fire e s)) = (t \<in> taskCancellations s) \<and>
        (loops (fire e s) t = loops s t \<or>
         (\<exists>f. loops s t = Some f \<and> frame_at f = Returned \<and> loops (fire e s) t = Some (f\<lparr>frame_at := Notified\<rparr>)))"
  proof (cases e)
    case (ExecuteTask plan ctx options uuid)
    from fr ExecuteTask t have "t \<noteq> uuid 0" by auto
    with ExecuteTask t show ?thesis by (simp add: fire_execute_isolated)
  next
    case (CancelTask kt)
    with nc have "kt \<noteq> t" by simp
    with CancelTask t show ?thesis by (cases "tasks s kt") (auto simp: cancelTask_tasks)
  next
    case (OuterTokenCancelled kt)
    with no have "kt \<noteq> t" by simp
    with OuterTokenCancelled t show ?thesis by simp
  next
    case (StepSettles kt c)
    with ns have "t \<noteq> kt" by simp
    with StepSettles t wf show ?thesis by (simp add: fire_settles_isolated)
  next
    case (ThenRuns kt)
    with t show ?thesis by (auto simp: fire_then_loops split: option.splits)
  qed
  then show "tasks (fire e s) t = Some task"
    and "cancelRequested (fire e s) t = cancelRequested s t"
    and "(t \<in> taskCancellations (fire e s)) = (t \<in> taskCancellations s)"
    and "loops (fire e s) t = loops s t \<or>
         (\<exists>f. loops s t = Some f \<and> frame_at f = Returned \<and> loops (fire e s) t = Some (f\<lparr>frame_at := Notified\<rparr>))"
    by blast+
qed

text \<open>Once the loop of a task has returned, only \<^verbatim>\<open>cancelTask\<close> changes the task, and only its status.\<close>

lemma resting_fire:
  assumes wf: "\<And>k. wf_at s k" and fr: "fresh e s" and t: "tasks s t = Some task" and r: "resting s t"
  shows "\<exists>task'. tasks (fire e s) t = Some task' \<and> task_steps task' = task_steps task \<and>
           (task_status task' = task_status task \<or> task_status task' = Task_Cancelled) \<and>
           (e \<noteq> CancelTask t \<longrightarrow> task' = task) \<and> resting (fire e s) t"
proof (cases "is_settle t e")
  case True
  then obtain c where e: "e = StepSettles t c" by (cases e) auto
  from r have "fire (StepSettles t c) s = s"
    by (auto simp: resting_def fire.simps split: option.splits position.splits)
  with e t r show ?thesis by simp
next
  case False
  note ns = this
  show ?thesis
  proof (cases "e = CancelTask t")
    case True
    with t r show ?thesis
      by (auto simp: cancelTask_tasks resting_def)
  next
    case False
    note nc = this
    show ?thesis
    proof (cases "e = OuterTokenCancelled t")
      case True
      with t r show ?thesis by (simp add: resting_def)
    next
      case False
      from unaffected [OF wf fr t ns nc False] r show ?thesis
        by (auto simp: resting_def)
    qed
  qed
qed

lemma resting_run:
  assumes "\<And>k. wf_at s k" and "admissible s es" and "tasks s t = Some task" and "resting s t"
  shows "\<exists>task'. tasks (run s es) t = Some task' \<and> task_steps task' = task_steps task \<and>
           (task_status task' = task_status task \<or> task_status task' = Task_Cancelled) \<and>
           (CancelTask t \<notin> set es \<longrightarrow> task' = task) \<and> resting (run s es) t"
  using assms
proof (induction es arbitrary: s task)
  case Nil
  then show ?case by simp
next
  case (Cons e es)
  from Cons.prems have fr: "fresh e s" and ad: "admissible (fire e s) es" by simp_all
  from resting_fire [OF Cons.prems(1) fr Cons.prems(3,4)] obtain task1 where
    t1: "tasks (fire e s) t = Some task1" "task_steps task1 = task_steps task"
      "task_status task1 = task_status task \<or> task_status task1 = Task_Cancelled"
      "e \<noteq> CancelTask t \<longrightarrow> task1 = task" "resting (fire e s) t"
    by blast
  have wf': "\<And>k. wf_at (fire e s) k" using Cons.prems(1) fr by (rule wf_fire)
  from Cons.IH [OF wf' ad t1(1) t1(5)] obtain task' where
    t': "tasks (run (fire e s) es) t = Some task'" "task_steps task' = task_steps task1"
      "task_status task' = task_status task1 \<or> task_status task' = Task_Cancelled"
      "CancelTask t \<notin> set es \<longrightarrow> task' = task1" "resting (run (fire e s) es) t"
    by blast
  from t1 t' show ?case by auto
qed

lemma status_fire:
  assumes wf: "\<And>k. wf_at s k" and fr: "fresh e s" and t: "tasks s t = Some task"
  shows "\<exists>task'. tasks (fire e s) t = Some task' \<and>
           (task_status task' = task_status task \<or> terminal (task_status task'))"
proof (cases "resting s t")
  case True
  from resting_fire [OF wf fr t True] show ?thesis by (auto simp: terminal_def)
next
  case False
  then obtain f i where l: "loops s t = Some f" and a: "frame_at f = Awaiting i"
    by (auto simp: resting_def split: option.splits position.splits)
  show ?thesis
  proof (cases "is_settle t e")
    case True
    then obtain c where e: "e = StepSettles t c" by (cases e) auto
    let ?o = "executeStep c (task_steps (frame_task f) ! i) (frame_context f) (frame_options f)"
    from fire_settles_tasks [OF wf l a t, of c] e
    have "tasks (fire e s) t = Some (settled_task i (stop_on_error (frame_options f))
              (step_name (task_steps (frame_task f) ! i)) ?o (cancelRequested s t) task)"
      by simp
    moreover have "task_status (settled_task i (stop_on_error (frame_options f))
              (step_name (task_steps (frame_task f) ! i)) ?o (cancelRequested s t) task) = task_status task \<or>
        terminal (task_status (settled_task i (stop_on_error (frame_options f))
              (step_name (task_steps (frame_task f) ! i)) ?o (cancelRequested s t) task))"
      by (cases ?o) (simp_all add: settled_task_status terminal_def)
    ultimately show ?thesis by blast
  next
    case False
    note ns = this
    show ?thesis
    proof (cases "e = CancelTask t")
      case True
      with t show ?thesis by (auto simp: cancelTask_tasks terminal_def)
    next
      case False
      note nc = this
      show ?thesis
      proof (cases "e = OuterTokenCancelled t")
        case True
        with t show ?thesis by simp
      next
        case False
        from unaffected(1) [OF wf fr t ns nc False] show ?thesis by simp
      qed
    qed
  qed
qed

lemma terminal_run:
  assumes "\<And>k. wf_at s k" and "admissible s es" and "tasks s t = Some task" and "terminal (task_status task)"
  shows "\<exists>task'. tasks (run s es) t = Some task' \<and> terminal (task_status task')"
  using assms
proof (induction es arbitrary: s task)
  case Nil
  then show ?case by simp
next
  case (Cons e es)
  from Cons.prems have fr: "fresh e s" and ad: "admissible (fire e s) es" by simp_all
  from status_fire [OF Cons.prems(1) fr Cons.prems(3)] Cons.prems(4) obtain task1 where
    t1: "tasks (fire e s) t = Some task1" "terminal (task_status task1)" by auto
  have wf': "\<And>k. wf_at (fire e s) k" using Cons.prems(1) fr by (rule wf_fire)
  from Cons.IH [OF wf' ad t1] show ?case by simp
qed

text \<open>A task is created \<^verbatim>\<open>Running\<close>, or \<^verbatim>\<open>Completed\<close> when it has no step.\<close>

lemma created_fire:
  assumes wf: "\<And>k. wf_at s k" and fr: "fresh e s" and n: "tasks s t = None"
    and t': "tasks (fire e s) t = Some task'"
  shows "(task_status task' = Task_Running \<or> task_status task' = Task_Completed) \<and>
         t \<in> taskCancellations (fire e s)"
proof (cases e)
  case (ExecuteTask plan ctx options uuid)
  from fr ExecuteTask have d: "distinct (map uuid [0 ..< Suc (length (steps plan))])" by simp
  show ?thesis
  proof (cases "t = uuid 0")
    case True
    with t' ExecuteTask fire_execute_tasks [OF d, of ctx options s]
    have "task' = iter_task 0 False (built_task plan options uuid)" by simp
    with True ExecuteTask show ?thesis by (simp add: iter_task_status)
  next
    case False
    with n t' ExecuteTask show ?thesis by (simp add: fire_execute_isolated)
  qed
next
  case (CancelTask kt)
  with n t' show ?thesis by (cases "tasks s kt") (auto simp: cancelTask_tasks split: if_splits)
next
  case (OuterTokenCancelled kt)
  with n t' show ?thesis by simp
next
  case (StepSettles kt c)
  show ?thesis
  proof (cases "kt = t")
    case True
    have "loops s t = None"
    proof (cases "loops s t")
      case (Some f)
      from wf_atD [OF wf Some] n show ?thesis by auto
    qed simp
    with True StepSettles have "fire e s = s" by (simp add: fire.simps)
    with n t' show ?thesis by simp
  next
    case False
    then have "t \<noteq> kt" by simp
    from fire_settles_isolated(1) [OF wf this, of c] n t' StepSettles show ?thesis by simp
  qed
next
  case (ThenRuns kt)
  with n t' show ?thesis by simp
qed

lemma never_pending_fire:
  assumes wf: "\<And>k. wf_at s k" and fr: "fresh e s" and np: "never_pending s"
  shows "never_pending (fire e s)"
  unfolding never_pending_def
proof (intro allI impI)
  fix k task'
  assume t': "tasks (fire e s) k = Some task'"
  show "task_status task' \<noteq> Task_Pending"
  proof (cases "tasks s k")
    case None
    from created_fire [OF wf fr None t'] show ?thesis by auto
  next
    case (Some task)
    from status_fire [OF wf fr Some] t' np Some show ?thesis
      by (auto simp: never_pending_def terminal_def)
  qed
qed

lemma never_pending_run:
  "(\<And>k. wf_at s k) \<Longrightarrow> admissible s es \<Longrightarrow> never_pending s \<Longrightarrow> never_pending (run s es)"
proof (induction es arbitrary: s)
  case Nil
  then show ?case by simp
next
  case (Cons e es)
  from Cons.prems have fr: "fresh e s" and ad: "admissible (fire e s) es" by simp_all
  have wf': "\<And>k. wf_at (fire e s) k" using Cons.prems(1) fr by (rule wf_fire)
  from Cons.IH [OF wf' ad never_pending_fire [OF Cons.prems(1) fr Cons.prems(3)]] show ?case by simp
qed

text \<open>Only \<^verbatim>\<open>cancelTask\<close> takes the source of a task out of the table.\<close>

lemma listed_fire:
  assumes wf: "\<And>k. wf_at s k" and fr: "fresh e s" and li: "listed s t" and nc: "e \<noteq> CancelTask t"
  shows "listed (fire e s) t"
proof (cases "tasks s t")
  case None
  show ?thesis
    unfolding listed_def using created_fire [OF wf fr None] by auto
next
  case (Some task)
  with li have m: "t \<in> taskCancellations s" by (simp add: listed_def)
  have "t \<in> taskCancellations (fire e s)"
  proof (cases e)
    case (CancelTask kt)
    with nc m show ?thesis by auto
  qed (use m in simp_all)
  then show ?thesis by (simp add: listed_def)
qed

lemma listed_run:
  "(\<And>k. wf_at s k) \<Longrightarrow> admissible s es \<Longrightarrow> listed s t \<Longrightarrow> CancelTask t \<notin> set es \<Longrightarrow> listed (run s es) t"
proof (induction es arbitrary: s)
  case Nil
  then show ?case by simp
next
  case (Cons e es)
  from Cons.prems have fr: "fresh e s" and ad: "admissible (fire e s) es"
    and nc: "e \<noteq> CancelTask t" and nc': "CancelTask t \<notin> set es" by auto
  have wf': "\<And>k. wf_at (fire e s) k" using Cons.prems(1) fr by (rule wf_fire)
  from Cons.IH [OF wf' ad listed_fire [OF Cons.prems(1) fr Cons.prems(3) nc] nc'] show ?case by simp
qed

lemma terminal_resting:
  assumes "wf_at s t" and "tasks s t = Some task" and "terminal (task_status task)"
    and "t \<in> taskCancellations s"
  shows "resting s t"
proof (cases "loops s t")
  case None
  then show ?thesis by (simp add: resting_def)
next
  case (Some f)
  from wf_atD [OF assms(1) Some] assms(2,3,4) have "\<forall>i. frame_at f \<noteq> Awaiting i" by auto
  with Some show ?thesis by (cases "frame_at f") (auto simp: resting_def)
qed

lemma settled_task_nth_cancelled:
  "j \<noteq> i \<Longrightarrow> task_steps (settled_task i stop name outcome True task) ! j = task_steps task ! j"
  by (cases outcome) (simp_all add: settled_task_def iter_task_steps)


lemma spread_step_failed [simp]:
  "step_status (spread_step st (no_step_updates\<lparr>set_step_status := Some Step_Failed,
                                               set_step_error := Some message\<rparr>)) = Step_Failed"
  "step_error (spread_step st (no_step_updates\<lparr>set_step_status := Some Step_Failed,
                                              set_step_error := Some message\<rparr>)) = Some message"
  by (simp_all add: spread_step_def no_step_updates_def)



lemma resting_returned: "loops s t = Some f \<Longrightarrow> frame_at f = Returned \<Longrightarrow> resting s t"
  by (simp add: resting_def)


lemmas run_defs =
  fire.simps executeTask_def iteration_def settled_def updateTask_def updateStep_def at_def cancelTask_def
  executeStep_def executeEditStep_def executeVerifyStep_def spread_task_def spread_step_def
  no_updates_def no_step_updates_def slice0_def enumerate_eq_zip Let_def init_def

lemma finished_run:
  "tasks (run init [ExecuteTask two_edits ''file:///w'' default_options sample_uuid,
                    StepSettles ''task'' idle, StepSettles ''task'' idle]) ''task'' = Some finished_task"
  by (simp add: run_defs two_edits_def default_options_def idle_def sample_uuid_def
      finished_task_def arrow_def or_else_def truthy_def)

lemma finished_admissible:
  "admissible init ([ExecuteTask two_edits ''file:///w'' default_options sample_uuid,
                     StepSettles ''task'' idle, StepSettles ''task'' idle] @
                    [StepSettles ''task'' idle, ThenRuns ''task'', OuterTokenCancelled ''task''])"
  by (simp add: run_defs two_edits_def default_options_def idle_def sample_uuid_def upt_rec)

lemma two_edits_frame:
  "loops (run init [ExecuteTask two_edits ''file:///w'' default_options sample_uuid, CancelTask ''task'']) ''task'' =
     Some (built_frame two_edits ''file:///w'' default_options sample_uuid)"
  by (simp add: fire_execute_loops iter_at_def built_steps_def built_frame_def two_edits_def
      default_options_def sample_uuid_def slice0_def)

lemma two_edits_cancelled_run:
  "admissible init ([ExecuteTask two_edits ''file:///w'' default_options sample_uuid, CancelTask ''task''] @
                    [StepSettles ''task'' idle] @ [StepSettles ''task'' idle, ThenRuns ''task''])"
  by (simp add: run_defs two_edits_def default_options_def idle_def sample_uuid_def upt_rec)





text \<open>
  C2, as the code has it. A task is never \<^verbatim>\<open>Pending\<close>: it is created \<^verbatim>\<open>Running\<close>. Once
  its status is \<^verbatim>\<open>Completed\<close>, \<^verbatim>\<open>Failed\<close> or \<^verbatim>\<open>Cancelled\<close> it stays one of these three
  under every sequence of calls of \<^verbatim>\<open>executeTask\<close> and \<^verbatim>\<open>cancelTask\<close>, cancellations of
  the outer token, settling handlers and callbacks. When \<^verbatim>\<open>cancelTask\<close> is never called
  for the task, the terminal status is the last update of its loop: no field of the task
  changes afterwards.
\<close>

theorem terminal_status_kept:
  assumes "admissible init (es1 @ es2)"
    and "tasks (run init es1) t = Some task"
    and "terminal (task_status task)"
  shows "(\<exists>task'. tasks (run init (es1 @ es2)) t = Some task' \<and> terminal (task_status task') \<and>
            (CancelTask t \<notin> set (es1 @ es2) \<longrightarrow> task' = task)) \<and>
         (\<forall>k task'. tasks (run init (es1 @ es2)) k = Some task' \<longrightarrow> task_status task' \<noteq> Task_Pending)"
proof -
  let ?s = "run init es1"
  from assms(1) have a1: "admissible init es1" and a2: "admissible ?s es2"
    by (simp_all add: admissible_append)
  have wf: "\<And>k. wf_at ?s k" using a1 by (rule wf_reachable)
  from terminal_run [OF wf a2 assms(2,3)] obtain task' where
    t': "tasks (run ?s es2) t = Some task'" "terminal (task_status task')" by blast
  have frozen: "task' = task" if nc: "CancelTask t \<notin> set (es1 @ es2)"
  proof -
    from nc have n1: "CancelTask t \<notin> set es1" and n2: "CancelTask t \<notin> set es2" by simp_all
    have "listed init t" by (simp add: listed_def init_def)
    with listed_run [OF wf_init a1 _ n1] have "listed ?s t" by simp
    with assms(2) have "t \<in> taskCancellations ?s" by (simp add: listed_def)
    with terminal_resting [OF wf assms(2,3)] have "resting ?s t" by simp
    from resting_run [OF wf a2 assms(2) this] n2 t'(1) show ?thesis by auto
  qed
  have "never_pending init" by (simp add: never_pending_def init_def)
  with never_pending_run [OF wf_init assms(1)] have "never_pending (run init (es1 @ es2))" by simp
  with t' frozen show ?thesis by (simp add: run_append never_pending_def)
qed

theorem terminal_status_kept_witness:
  "tasks (run init ([ExecuteTask two_edits ''file:///w'' default_options sample_uuid,
                     StepSettles ''task'' idle, StepSettles ''task'' idle] @
                    [StepSettles ''task'' idle, ThenRuns ''task'', OuterTokenCancelled ''task''])) ''task'' =
     Some finished_task \<and>
   task_status finished_task = Task_Completed"
proof -
  have h3: "terminal (task_status finished_task)" by (simp add: terminal_def finished_task_def)
  from terminal_status_kept [OF finished_admissible finished_run h3] obtain task' where
    t: "tasks (run init ([ExecuteTask two_edits ''file:///w'' default_options sample_uuid,
                     StepSettles ''task'' idle, StepSettles ''task'' idle] @
                    [StepSettles ''task'' idle, ThenRuns ''task'', OuterTokenCancelled ''task''])) ''task'' =
        Some task'"
    and f: "CancelTask ''task'' \<notin> set ([ExecuteTask two_edits ''file:///w'' default_options sample_uuid,
                     StepSettles ''task'' idle, StepSettles ''task'' idle] @
                    [StepSettles ''task'' idle, ThenRuns ''task'', OuterTokenCancelled ''task'']) \<longrightarrow>
            task' = finished_task"
    by blast
  have "CancelTask ''task'' \<notin> set ([ExecuteTask two_edits ''file:///w'' default_options sample_uuid,
                     StepSettles ''task'' idle, StepSettles ''task'' idle] @
                    [StepSettles ''task'' idle, ThenRuns ''task'', OuterTokenCancelled ''task''])"
    by simp
  with f have "task' = finished_task" by blast
  with t show ?thesis by (simp add: finished_task_def)
qed

text \<open>
  C2 as stated fails: \<^verbatim>\<open>cancelTask\<close> makes the task \<^verbatim>\<open>Cancelled\<close> while the handler of its
  first step is in flight, and when that handler settles the loop still records the step
  as completed, before it looks at the token. The steps of a terminal task have changed.
\<close>

theorem step_recorded_after_cancel:
  "map_option task_status
     (tasks (run init [ExecuteTask two_edits ''file:///w'' default_options sample_uuid,
                       CancelTask ''task'']) ''task'') = Some Task_Cancelled \<and>
   map_option (\<lambda>task. map step_status (task_steps task))
     (tasks (run init [ExecuteTask two_edits ''file:///w'' default_options sample_uuid,
                       CancelTask ''task'']) ''task'') = Some [Step_Running, Step_Pending] \<and>
   map_option (\<lambda>task. map step_status (task_steps task))
     (tasks (run init [ExecuteTask two_edits ''file:///w'' default_options sample_uuid,
                       CancelTask ''task'', StepSettles ''task'' idle]) ''task'') =
     Some [Step_Completed, Step_Pending]"
  by (simp add: run_defs two_edits_def default_options_def idle_def sample_uuid_def)



text \<open>
  C5. The loop of a task awaits the handler of step \<open>i\<close>, a further step exists, and the
  cancellation of the task has been requested, by \<^verbatim>\<open>cancelTask\<close> or through the outer
  token. When the handler settles and the next iteration begins (the step did not fail
  under \<^verbatim>\<open>stopOnError\<close>), the task becomes \<^verbatim>\<open>Cancelled\<close>, the loop returns, and every
  step after \<open>i\<close> is \<^verbatim>\<open>Pending\<close> and stays so, the steps of the task being the same
  after any further events.
\<close>

theorem cancellation_at_boundary:
  assumes "admissible init (es1 @ [StepSettles t c] @ es2)"
    and "loops (run init es1) t = Some f"
    and "frame_at f = Awaiting i"
    and "Suc i < length (task_steps (frame_task f))"
    and "cancelRequested (run init es1) t"
    and "stop_on_error (frame_options f) \<longrightarrow>
           (\<exists>r. executeStep c (task_steps (frame_task f) ! i) (frame_context f) (frame_options f) = Inr r)"
  shows "\<exists>task'. tasks (run init (es1 @ [StepSettles t c])) t = Some task' \<and>
           task_status task' = Task_Cancelled \<and>
           loops (run init (es1 @ [StepSettles t c])) t = Some (f\<lparr>frame_at := Returned\<rparr>) \<and>
           (\<forall>j. i < j \<and> j < length (task_steps task') \<longrightarrow> step_status (task_steps task' ! j) = Step_Pending) \<and>
           (\<exists>task''. tasks (run init (es1 @ [StepSettles t c] @ es2)) t = Some task'' \<and>
              task_steps task'' = task_steps task' \<and>
              (\<forall>j. i < j \<and> j < length (task_steps task'') \<longrightarrow>
                 step_status (task_steps task'' ! j) = Step_Pending))"
proof -
  let ?s = "run init es1"
  let ?s' = "fire (StepSettles t c) ?s"
  let ?o = "executeStep c (task_steps (frame_task f) ! i) (frame_context f) (frame_options f)"
  let ?stop = "stop_on_error (frame_options f)"
  from assms(1) have a1: "admissible init es1" and fr: "fresh (StepSettles t c) ?s"
    and a2: "admissible ?s' es2"
    by (simp_all add: admissible_append)
  have wf: "\<And>k. wf_at ?s k" using a1 by (rule wf_reachable)
  have wf': "\<And>k. wf_at ?s' k" using wf fr by (rule wf_fire)
  from wf_atD [OF wf assms(2)] assms(3) obtain task where
    t: "tasks ?s t = Some task"
    and ids: "map step_id (task_steps task) = map step_id (task_steps (frame_task f))"
    and pend: "\<forall>j. i < j \<and> j < length (task_steps task) \<longrightarrow> step_status (task_steps task ! j) = Step_Pending"
    by blast
  from ids have len: "length (task_steps (frame_task f)) = length (task_steps task)"
    by (metis length_map)
  let ?task' = "settled_task i ?stop (step_name (task_steps (frame_task f) ! i)) ?o True task"
  have T: "tasks ?s' t = Some ?task'"
    using fire_settles_tasks [OF wf assms(2,3) t, of c] assms(5) by simp
  have L: "loops ?s' t = Some (f\<lparr>frame_at := Returned\<rparr>)"
    using fire_settles_loops [OF wf assms(2,3) t, of c] assms(5) by (simp add: settled_at_value)
  have st: "task_status ?task' = Task_Cancelled"
    using assms(4,6) len by (cases ?o) (auto simp: settled_task_status)
  have P: "\<forall>j. i < j \<and> j < length (task_steps ?task') \<longrightarrow> step_status (task_steps ?task' ! j) = Step_Pending"
    using pend by (simp add: settled_task_nth_cancelled)
  from L have "resting ?s' t" by (simp add: resting_def)
  from resting_run [OF wf' a2 T this] obtain task'' where
    t'': "tasks (run ?s' es2) t = Some task''" "task_steps task'' = task_steps ?task'" by blast
  have e1: "run init (es1 @ [StepSettles t c]) = ?s'" by (simp add: run_append)
  have e2: "run init (es1 @ [StepSettles t c] @ es2) = run ?s' es2" by (simp add: run_append)
  from T L st P t'' show ?thesis unfolding e1 e2 by auto
qed

theorem cancellation_at_boundary_witness:
  "\<exists>task'. tasks (run init ([ExecuteTask two_edits ''file:///w'' default_options sample_uuid,
                              CancelTask ''task''] @ [StepSettles ''task'' idle])) ''task'' = Some task' \<and>
     task_status task' = Task_Cancelled \<and>
     (\<exists>task''. tasks (run init ([ExecuteTask two_edits ''file:///w'' default_options sample_uuid,
                                   CancelTask ''task''] @ [StepSettles ''task'' idle] @
                                  [StepSettles ''task'' idle, ThenRuns ''task''])) ''task'' = Some task'' \<and>
        (\<forall>j. 0 < j \<and> j < length (task_steps task'') \<longrightarrow> step_status (task_steps task'' ! j) = Step_Pending))"
proof -
  let ?f = "built_frame two_edits ''file:///w'' default_options sample_uuid"
  have h3: "frame_at ?f = Awaiting 0" by simp
  have h4: "Suc 0 < length (task_steps (frame_task ?f))"
    by (simp add: built_steps_def two_edits_def default_options_def slice0_def)
  have h5: "cancelRequested (run init [ExecuteTask two_edits ''file:///w'' default_options sample_uuid,
                                        CancelTask ''task'']) ''task''"
    by (simp add: sample_uuid_def)
  have h6: "stop_on_error (frame_options ?f) \<longrightarrow>
           (\<exists>r. executeStep idle (task_steps (frame_task ?f) ! 0) (frame_context ?f) (frame_options ?f) = Inr r)"
    by (simp add: executeStep_def executeEditStep_def built_steps_def two_edits_def default_options_def
        slice0_def enumerate_eq_zip)
  from cancellation_at_boundary [OF two_edits_cancelled_run two_edits_frame h3 h4 h5 h6]
  show ?thesis by blast
qed

text \<open>
  C9 at a plan of two steps run to the end: the task is \<^verbatim>\<open>Completed\<close> and its source is
  still in \<^verbatim>\<open>_taskCancellations\<close>. \<^verbatim>\<open>executeSteps\<close> never deletes the entry; only
  \<^verbatim>\<open>cancelTask\<close> does.
\<close>

theorem source_stays_after_completion:
  "map_option task_status
     (tasks (run init [ExecuteTask two_edits ''file:///w'' default_options sample_uuid,
                       StepSettles ''task'' idle, StepSettles ''task'' idle]) ''task'') =
     Some Task_Completed \<and>
   ''task'' \<in> taskCancellations
     (run init [ExecuteTask two_edits ''file:///w'' default_options sample_uuid,
                StepSettles ''task'' idle, StepSettles ''task'' idle])"
  by (simp add: run_defs two_edits_def default_options_def idle_def sample_uuid_def)

end
